theory Spec2Isabelle
  imports Main
begin

section \<open>JavaScript values\<close>

text \<open>
  The values that reach the renderer: attribute strings, the result of \<open>JSON.parse\<close> on
  the \<open>updates\<close> attribute, and the members of the event table. \<open>JFun\<close> stands for a
  function object (only its name is kept).
\<close>

datatype jsval =
    JUndefined
  | JNull
  | JBool bool
  | JNum int
  | JStr string
  | JFun string
  | JArr "jsval list"
  | JObj "(string \<times> jsval) list"

datatype exn = TypeError | SyntaxError | DOMException | Error string

fun truthy :: "jsval \<Rightarrow> bool" where
  "truthy JUndefined = False"
| "truthy JNull = False"
| "truthy (JBool b) = b"
| "truthy (JNum n) = (n \<noteq> 0)"
| "truthy (JStr s) = (s \<noteq> [])"
| "truthy (JFun f) = True"
| "truthy (JArr xs) = True"
| "truthy (JObj fs) = True"

fun typeof :: "jsval \<Rightarrow> string" where
  "typeof JUndefined = ''undefined''"
| "typeof JNull = ''object''"
| "typeof (JBool b) = ''boolean''"
| "typeof (JNum n) = ''number''"
| "typeof (JStr s) = ''string''"
| "typeof (JFun f) = ''function''"
| "typeof (JArr xs) = ''object''"
| "typeof (JObj fs) = ''object''"

text \<open>
  Reading a member of a plain object (one written as a literal or produced by
  \<open>JSON.parse\<close>): its own member of that name, else the member it inherits from
  \<open>Object.prototype\<close>, else \<open>undefined\<close>. The inherited members are functions, and
  \<open>__proto__\<close> is the prototype object itself.
\<close>

definition Object_prototype :: "(string \<times> jsval) list" where
  "Object_prototype =
     [(''constructor'', JFun ''Object''),
      (''__proto__'', JObj []),
      (''hasOwnProperty'', JFun ''hasOwnProperty''),
      (''isPrototypeOf'', JFun ''isPrototypeOf''),
      (''propertyIsEnumerable'', JFun ''propertyIsEnumerable''),
      (''toLocaleString'', JFun ''toLocaleString''),
      (''toString'', JFun ''toString''),
      (''valueOf'', JFun ''valueOf''),
      (''__defineGetter__'', JFun ''__defineGetter__''),
      (''__defineSetter__'', JFun ''__defineSetter__''),
      (''__lookupGetter__'', JFun ''__lookupGetter__''),
      (''__lookupSetter__'', JFun ''__lookupSetter__'')]"

definition object_get :: "(string \<times> jsval) list \<Rightarrow> string \<Rightarrow> jsval" where
  "object_get own k =
     (case map_of own k of
        Some v \<Rightarrow> v
      | None \<Rightarrow> (case map_of Object_prototype k of Some v \<Rightarrow> v | None \<Rightarrow> JUndefined))"

text \<open>
  \<open>v.name\<close> for one of the descriptor keys (\<open>section\<close>, \<open>destination\<close>,
  \<open>updateMode\<close>, \<open>query\<close>): reading a property of \<open>null\<close> or \<open>undefined\<close> throws,
  an object yields its member or \<open>undefined\<close>, and no primitive, array or function has a
  member of these names.
\<close>

fun js_prop :: "jsval \<Rightarrow> string \<Rightarrow> jsval" where
  "js_prop (JObj fs) k = object_get fs k"
| "js_prop v k = JUndefined"

fun get_prop :: "jsval \<Rightarrow> string \<Rightarrow> exn + jsval" where
  "get_prop JUndefined k = Inl TypeError"
| "get_prop JNull k = Inl TypeError"
| "get_prop v k = Inr (js_prop v k)"

text \<open>
  Membership in a \<open>Set\<close> (SameValueZero): primitives by value, objects by identity. Every
  object produced by one \<open>JSON.parse\<close> is a distinct object, so two of them are never the
  same member.
\<close>

fun same_value_zero :: "jsval \<Rightarrow> jsval \<Rightarrow> bool" where
  "same_value_zero (JArr xs) w = False"
| "same_value_zero (JObj fs) w = False"
| "same_value_zero (JFun f) w = False"
| "same_value_zero v w = (v = w)"

definition set_add :: "jsval list \<Rightarrow> jsval \<Rightarrow> jsval list" where
  "set_add acc v = (if list_ex (\<lambda>x. same_value_zero x v) acc then acc else acc @ [v])"

definition new_Set :: "jsval list \<Rightarrow> jsval list" where
  "new_Set vs = foldl set_add [] vs"

section \<open>Strings\<close>

text \<open>Strings are ASCII here; the white space of \<open>trim\<close> and of \<open>\s\<close> is TAB, LF, VT, FF, CR and space.\<close>

definition is_ws :: "char \<Rightarrow> bool" where
  "is_ws c = (c \<in> set [CHR 0x09, CHR 0x0A, CHR 0x0B, CHR 0x0C, CHR 0x0D, CHR '' ''])"

definition trim :: "string \<Rightarrow> string" where
  "trim s = rev (dropWhile is_ws (rev (dropWhile is_ws s)))"

text \<open>\<open>s.replace(/\s+/g, ' ')\<close>: every maximal run of white space becomes one space.\<close>

fun collapse_from :: "bool \<Rightarrow> string \<Rightarrow> string" where
  "collapse_from in_run [] = []"
| "collapse_from in_run (c # cs) =
     (if is_ws c then (if in_run then collapse_from True cs else CHR '' '' # collapse_from True cs)
      else c # collapse_from False cs)"

definition collapse_ws :: "string \<Rightarrow> string" where
  "collapse_ws s = collapse_from False s"

text \<open>\<open>s.split(' ')\<close>: the pieces between single spaces, empty pieces included.\<close>

fun split_space :: "string \<Rightarrow> string list" where
  "split_space [] = [] # []"
| "split_space (c # cs) =
     (if c = CHR '' '' then [] # split_space cs
      else (case split_space cs of [] \<Rightarrow> [c] # [] | p # ps \<Rightarrow> (c # p) # ps))"

text \<open>\<open>xs.join(',')\<close> on an array of strings.\<close>

fun join_comma :: "string list \<Rightarrow> string" where
  "join_comma [] = []"
| "join_comma [x] = x"
| "join_comma (x # y # ys) = x @ '','' @ join_comma (y # ys)"

text \<open>\<open>s.replace(pat, '')\<close> with a string pattern: the first occurrence of \<open>pat\<close> is removed.\<close>

fun remove_first :: "string \<Rightarrow> string \<Rightarrow> string" where
  "remove_first pat [] = []"
| "remove_first pat (c # cs) =
     (if take (length pat) (c # cs) = pat then drop (length pat) (c # cs)
      else c # remove_first pat cs)"

definition lower_char :: "char \<Rightarrow> char" where
  "lower_char c =
     (case map_of (zip ''ABCDEFGHIJKLMNOPQRSTUVWXYZ'' ''abcdefghijklmnopqrstuvwxyz'') c of
        Some d \<Rightarrow> d
      | None \<Rightarrow> c)"

definition toLowerCase :: "string \<Rightarrow> string" where
  "toLowerCase s = map lower_char s"

section \<open>The component, its triggers and the browser around them\<close>

type_synonym node = nat

text \<open>
  A trigger element as the handler reads it: its identity, its tag name, its attributes and
  the \<open>id\<close> attribute of \<open>trigger.closest('.shopify-section')\<close> (\<open>None\<close>: no such
  ancestor; \<open>Some None\<close>: an ancestor without an \<open>id\<close>).
\<close>

record trigger =
  tid :: node
  tagName :: string
  attrs :: "string \<rightharpoonup> string"
  closest :: "string option option"

text \<open>What a child of a destination element is: an element cut out of a fetched fragment, or a text node.\<close>

datatype child = Element string | TextNode string

record url =
  location :: string
  searchParams :: "(string \<times> string) list"
  hash :: string

datatype effect =
    Event string string
  | Fetch url
  | PushState string
  | ReplaceState string
  | SetTitle string
  | ClassToggle node string bool
  | SetDisplay node string
  | AddEventListener node jsval
  | RemoveEventListener node jsval
  | PreventDefault node
  | RemoveAttribute node string
  | TimerFired nat node
  | Observe node
  | Unobserve node
  | Disconnect
  | ConsoleWarn
  | ConsoleError

text \<open>
  The instance (\<open>this\<close>) together with the part of the page it acts on: the children of every
  element (\<open>dom\<close>) and the effects observed so far (\<open>trace\<close>: dispatched events, requests,
  history and title writes, indicator changes, listener and observer calls, console output),
  and the browser's table of pending timers, each with its handle, the time it is due and
  the trigger its callback activates.
\<close>

record state =
  inst_id :: string
  loading :: bool
  loadingElement :: "node option"
  loadingSelector :: "string option"
  loadingClass :: "string option"
  scoped :: bool
  historyMode :: string
  updateUrl :: "string option"
  updateTitle :: "string option"
  renderUrl :: "string option"
  debounceTime :: nat
  timeoutId :: "nat option"
  triggers :: "trigger list option"
  triggerInits :: "trigger list option"
  triggerIntersects :: "trigger list option"
  boundEventListeners :: "(node \<times> jsval) list"
  observer :: bool
  dom :: "node \<Rightarrow> child list"
  trace :: "effect list"
  timers :: "(nat \<times> nat \<times> trigger) list"
  next_timer :: nat

datatype race = Response "string \<rightharpoonup> string" | FetchFailed | Timeout

text \<open>
  What the browser decides: \<open>JSON.parse\<close>, the \<open>URL\<close> constructor against the page origin,
  the current path, the outcome of the request raced against the timer, the selector engine
  on the component's subtree and on the document (an invalid selector throws), the lookup of
  the section element in a parsed fragment and of a sub-selector inside it, and whether the
  history accepts a URL.
\<close>

record env =
  JSON_parse :: "string \<Rightarrow> jsval option"
  URL_new :: "string \<Rightarrow> url option"
  pathname :: string
  fetch_race :: "url \<Rightarrow> race"
  this_querySelector :: "(node \<Rightarrow> child list) \<Rightarrow> string \<Rightarrow> exn + node option"
  document_querySelector :: "(node \<Rightarrow> child list) \<Rightarrow> string \<Rightarrow> exn + node option"
  doc_querySelector :: "string \<Rightarrow> string \<Rightarrow> exn + string option"
  elem_querySelector :: "string \<Rightarrow> jsval \<Rightarrow> exn + string option"
  this_querySelectorAll :: "string \<Rightarrow> trigger list"
  document_querySelectorAll :: "string \<Rightarrow> trigger list"
  hasAttribute :: "node \<Rightarrow> string \<Rightarrow> bool"
  history_accepts :: "string \<Rightarrow> bool"

definition ev_init :: string where "ev_init = ''liquid-render-init''"
definition ev_started :: string where "ev_started = ''liquid-render-started''"
definition ev_ended :: string where "ev_ended = ''liquid-render-ended''"
definition ev_error :: string where "ev_error = ''liquid-render-error''"
definition ev_destroy :: string where "ev_destroy = ''liquid-render-destroying''"

definition emit :: "effect \<Rightarrow> state \<Rightarrow> state" where
  "emit e s = s\<lparr>trace := trace s @ [e]\<rparr>"

definition event :: "string \<Rightarrow> state \<Rightarrow> state" where
  "event name s = emit (Event name (inst_id s)) s"

text \<open>\<open>el.getAttribute(k) || null\<close>: an absent and an empty attribute both give \<open>null\<close>.\<close>

definition attr_or_null :: "trigger \<Rightarrow> string \<Rightarrow> string option" where
  "attr_or_null t k = (case attrs t k of None \<Rightarrow> None | Some v \<Rightarrow> if v = [] then None else Some v)"

definition opt_jsval :: "string option \<Rightarrow> jsval" where
  "opt_jsval x = (case x of None \<Rightarrow> JNull | Some v \<Rightarrow> JStr v)"

section \<open>The loading toggle\<close>

text \<open>
  \<open>classList.toggle(cls, force)\<close> throws on an empty token and on one that contains
  ASCII white space (TAB, LF, FF, CR or space); \<open>forEach\<close> stops there, with the earlier
  classes already toggled.
\<close>

definition is_token_ws :: "char \<Rightarrow> bool" where
  "is_token_ws c = (c \<in> set [CHR 0x09, CHR 0x0A, CHR 0x0C, CHR 0x0D, CHR '' ''])"

definition valid_token :: "string \<Rightarrow> bool" where
  "valid_token t = (t \<noteq> [] \<and> \<not> list_ex is_token_ws t)"

fun toggle_classes :: "node \<Rightarrow> bool \<Rightarrow> string list \<Rightarrow> state \<Rightarrow> exn option \<times> state" where
  "toggle_classes el force [] s = (None, s)"
| "toggle_classes el force (cls # rest) s =
     (if valid_token cls then toggle_classes el force rest (emit (ClassToggle el cls force) s)
      else (Some (if cls = [] then SyntaxError else DOMException), s))"

text \<open>The indicator follows the flag: its classes when a class is configured, its display otherwise.\<close>

definition toggleIndicator :: "state \<Rightarrow> exn option \<times> state" where
  "toggleIndicator s =
     (case loadingElement s of
        None \<Rightarrow> (None, s)
      | Some el \<Rightarrow>
          (case loadingClass s of
             Some cls \<Rightarrow> toggle_classes el (loading s) (split_space cls) s
           | None \<Rightarrow> (None, emit (SetDisplay el (if loading s then ''block'' else ''none'')) s)))"

definition toggleLoading :: "state \<Rightarrow> exn option \<times> state" where
  "toggleLoading s =
     (case toggleIndicator (s\<lparr>loading := \<not> loading s\<rparr>) of
        (Some e, s2) \<Rightarrow> (Some e, s2)
      | (None, s2) \<Rightarrow> (None, if loading s2 then event ev_started s2 else event ev_ended s2))"

section \<open>Resolving the update descriptors\<close>

fun map_section :: "jsval list \<Rightarrow> exn + jsval list" where
  "map_section [] = Inr []"
| "map_section (u # us) =
     (case get_prop u ''section'' of
        Inl e \<Rightarrow> Inl e
      | Inr v \<Rightarrow> (case map_section us of Inl e \<Rightarrow> Inl e | Inr vs \<Rightarrow> Inr (v # vs)))"

text \<open>
  \<open>_getUpdatesArray\<close> returns the pair (sections, updates); whatever is thrown inside
  (by \<open>JSON.parse\<close>, by the array check, by \<open>update.section\<close> on a \<open>null\<close> entry) is
  logged as a warning and the empty result is returned.
\<close>

definition getUpdatesArray :: "env \<Rightarrow> trigger \<Rightarrow> state \<Rightarrow> (jsval list \<times> jsval list) \<times> state" where
  "getUpdatesArray env t s =
     (case attrs t ''updates'' of
        None \<Rightarrow> (([], []), s)
      | Some attr \<Rightarrow>
          if attr = [] then (([], []), s)
          else (case JSON_parse env (trim (collapse_ws attr)) of
                  Some (JArr updates) \<Rightarrow>
                    (case map_section updates of
                       Inr secs \<Rightarrow> ((new_Set secs, updates), s)
                     | Inl e \<Rightarrow> (([], []), emit ConsoleWarn s))
                | other \<Rightarrow> (([], []), emit ConsoleWarn s)))"

text \<open>\<open>_getClosestSection\<close>: \<open>null\<close>, or the pair (section, destination) read off the ancestor's id.\<close>

definition getClosestSection :: "trigger \<Rightarrow> exn + (string \<times> string) option" where
  "getClosestSection t =
     (case closest t of
        None \<Rightarrow> Inr None
      | Some None \<Rightarrow> Inl TypeError
      | Some (Some i) \<Rightarrow> Inr (Some (trim (remove_first ''shopify-section-'' i), ''#'' @ i)))"

definition descriptor :: "string \<Rightarrow> string \<Rightarrow> string \<Rightarrow> string option \<Rightarrow> jsval" where
  "descriptor section destination updateMode query =
     JObj [(''section'', JStr section), (''destination'', JStr destination),
           (''updateMode'', JStr updateMode), (''query'', opt_jsval query)]"

text \<open>
  Lines 144 to 171 of \<open>_handleTrigger\<close>: the batch from the \<open>updates\<close> attribute, or one
  descriptor from the trigger's own attributes and the enclosing section. The result is the
  pair (sections, updates), or what was thrown.
\<close>

definition resolve :: "env \<Rightarrow> trigger \<Rightarrow> state \<Rightarrow> (exn + jsval list \<times> jsval list) \<times> state" where
  "resolve env t s =
     (let ((sections, updates), s1) = getUpdatesArray env t s in
      if updates \<noteq> [] then (Inr (sections, updates), s1)
      else
        (case getClosestSection t of
           Inl e \<Rightarrow> (Inl e, s1)
         | Inr closestSection \<Rightarrow>
             (let updateMode = (case attr_or_null t ''update-mode'' of None \<Rightarrow> ''replace'' | Some m \<Rightarrow> m);
                  query = attr_or_null t ''query'';
                  section = attr_or_null t ''section'';
                  destination = attr_or_null t ''destination''
              in case closestSection of
                   None \<Rightarrow>
                     (case (section, destination) of
                        (Some sec, Some dst) \<Rightarrow>
                          (Inr ([JStr sec], [descriptor sec dst updateMode query]), s1)
                      | other \<Rightarrow>
                          (Inl (Error ''could not find closest parent Shopify section''),
                           emit ConsoleWarn s1))
                 | Some (csec, cdst) \<Rightarrow>
                     (let s2 = (if section = None \<and> destination = None
                                then s1\<lparr>scoped := False\<rparr> else s1);
                          sec = (case section of None \<Rightarrow> csec | Some x \<Rightarrow> x);
                          dst = (case destination of None \<Rightarrow> cdst | Some x \<Rightarrow> x)
                      in (Inr ([JStr sec], [descriptor sec dst updateMode query]), s2)))))"

definition isValidUpdate :: "jsval \<Rightarrow> bool" where
  "isValidUpdate update =
     (truthy update \<and> typeof update = ''object'' \<and>
      typeof (js_prop update ''section'') = ''string'' \<and>
      typeof (js_prop update ''destination'') = ''string'')"

definition isValidUpdates :: "jsval list \<Rightarrow> bool" where
  "isValidUpdates updates = list_all isValidUpdate updates"

section \<open>Building the request URL\<close>

text \<open>\<open>URLSearchParams.set\<close>: the first entry of that name takes the value and the later ones go; without one, a new entry is appended.\<close>

fun params_set :: "string \<Rightarrow> string \<Rightarrow> (string \<times> string) list \<Rightarrow> (string \<times> string) list" where
  "params_set k v [] = [(k, v)]"
| "params_set k v (p # ps) =
     (if fst p = k then (k, v) # filter (\<lambda>q. fst q \<noteq> k) ps else p # params_set k v ps)"

datatype sections_arg = SNull | SArr "string list" | SStr string

text \<open>The first truthy one of the trigger's attribute, the instance's attribute and the page path.\<close>

definition chosen_renderUrl :: "env \<Rightarrow> state \<Rightarrow> trigger option \<Rightarrow> string" where
  "chosen_renderUrl env s t =
     (case (case t of None \<Rightarrow> None | Some tr \<Rightarrow> attr_or_null tr ''render-url'') of
        Some u \<Rightarrow> u
      | None \<Rightarrow>
          (case renderUrl s of
             Some u \<Rightarrow> if u = [] then pathname env else u
           | None \<Rightarrow> pathname env))"

text \<open>\<open>_buildUrl\<close>: \<open>Inr None\<close> is the \<open>undefined\<close> of the early return, \<open>Inl\<close> what the \<open>URL\<close> constructor throws.\<close>

definition buildUrl :: "env \<Rightarrow> state \<Rightarrow> sections_arg \<Rightarrow> trigger option \<Rightarrow> exn + url option" where
  "buildUrl env s sections t =
     (if sections = SNull \<or> sections = SStr [] then Inr None
      else
        (case URL_new env (chosen_renderUrl env s t) of
           None \<Rightarrow> Inl TypeError
         | Some u \<Rightarrow>
             (let params = searchParams u;
                  sectionsParam =
                    (case sections of
                       SArr xs \<Rightarrow> trim (join_comma xs)
                     | SStr x \<Rightarrow> trim x
                     | SNull \<Rightarrow> [])
              in Inr (Some (u\<lparr>searchParams := params_set ''sections'' sectionsParam params\<rparr>)))))"

section \<open>Fetching\<close>

fun str_of :: "jsval \<Rightarrow> string" where
  "str_of (JStr x) = x"
| "str_of v = []"

text \<open>
  \<open>Promise.race\<close> of \<open>_fetchSections\<close> and \<open>_requestTimeout\<close>. The request is issued as
  soon as the URL is built; the result is the response or what the race rejects with (a
  failed or unsuccessful request, a body that is not JSON, the timeout). The response is the
  object of the wire contract, from section identifiers to strings. The sections of a
  validated batch are strings (\<open>valid_sections_strings\<close> below), which \<open>str_of\<close> reads.
\<close>

definition fetchRace :: "env \<Rightarrow> jsval list \<Rightarrow> trigger \<Rightarrow> state \<Rightarrow> (exn + (string \<rightharpoonup> string)) \<times> state" where
  "fetchRace env sections t s =
     (case buildUrl env s (SArr (map str_of sections)) (Some t) of
        Inl e \<Rightarrow> (Inl e, s)
      | Inr None \<Rightarrow> (Inl (Error ''Failed to build a URL''), s)
      | Inr (Some u) \<Rightarrow>
          (let s1 = emit (Fetch u) s in
           case fetch_race env u of
             Response r \<Rightarrow> (Inr r, s1)
           | FetchFailed \<Rightarrow> (Inl (Error ''Failed to fetch section''), emit ConsoleError s1)
           | Timeout \<Rightarrow> (Inl (Error ''Request timeout to fetch section''), s1)))"

section \<open>Patching the document\<close>

definition findElement :: "env \<Rightarrow> state \<Rightarrow> string \<Rightarrow> bool \<Rightarrow> exn + node option" where
  "findElement env s selector forceScoped =
     (if scoped s \<or> forceScoped then this_querySelector env (dom s) selector
      else document_querySelector env (dom s) selector)"

definition appendChild :: "child list \<Rightarrow> string option \<Rightarrow> exn + child list" where
  "appendChild cs el = (case el of None \<Rightarrow> Inl TypeError | Some e \<Rightarrow> Inr (cs @ [Element e]))"

text \<open>\<open>prepend\<close> takes nodes and strings: \<open>null\<close> is turned into the text \<open>null\<close>.\<close>

definition prepend :: "child list \<Rightarrow> string option \<Rightarrow> child list" where
  "prepend cs el = (case el of None \<Rightarrow> TextNode ''null'' # cs | Some e \<Rightarrow> Element e # cs)"

text \<open>
  The \<open>switch (updateMode)\<close> of \<open>_updateSection\<close> on the children of the destination. The
  second component is the child list left behind, also when the call throws.
\<close>

definition applyMode :: "jsval \<Rightarrow> child list \<Rightarrow> string option \<Rightarrow> exn option \<times> child list" where
  "applyMode updateMode cs el =
     (if updateMode = JStr ''after'' \<or> updateMode = JStr ''append'' then
        (case appendChild cs el of Inl e \<Rightarrow> (Some e, cs) | Inr cs' \<Rightarrow> (None, cs'))
      else if updateMode = JStr ''before'' \<or> updateMode = JStr ''prepend'' then
        (None, prepend cs el)
      else if updateMode = JStr ''replace'' \<or> updateMode = JNull then
        (case appendChild [] el of Inl e \<Rightarrow> (Some e, []) | Inr cs' \<Rightarrow> (None, cs'))
      else (None, cs))"

text \<open>The body of the \<open>forEach\<close> callback for one descriptor.\<close>

definition updateOne :: "env \<Rightarrow> (string \<rightharpoonup> string) \<Rightarrow> jsval \<Rightarrow> state \<Rightarrow> exn option \<times> state" where
  "updateOne env response u s =
     (let section = str_of (js_prop u ''section'');
          destination = str_of (js_prop u ''destination'');
          updateMode = js_prop u ''updateMode'';
          query = js_prop u ''query'';
          data = (case response section of None \<Rightarrow> ''undefined'' | Some d \<Rightarrow> d)
      in case findElement env s destination False of
           Inl e \<Rightarrow> (Some e, s)
         | Inr destinationElement \<Rightarrow>
             (case doc_querySelector env data (''#shopify-section-'' @ section) of
                Inl e \<Rightarrow> (Some e, s)
              | Inr found \<Rightarrow>
                  (case (if truthy query then
                           (case found of
                              None \<Rightarrow> Inl TypeError
                            | Some el \<Rightarrow>
                                (case elem_querySelector env el query of
                                   Inl e \<Rightarrow> Inl e
                                 | Inr None \<Rightarrow> Inr (Some el)
                                 | Inr (Some sub) \<Rightarrow> Inr (Some sub)))
                         else Inr found) of
                     Inl e \<Rightarrow> (Some e, s)
                   | Inr sectionElement \<Rightarrow>
                       (case destinationElement of
                          None \<Rightarrow> (Some (Error ''Failed to find destination element''), s)
                        | Some d \<Rightarrow>
                            (let (r, cs) = applyMode updateMode (dom s d) sectionElement
                             in (r, s\<lparr>dom := (dom s)(d := cs)\<rparr>))))))"

fun forEach_update :: "env \<Rightarrow> (string \<rightharpoonup> string) \<Rightarrow> jsval list \<Rightarrow> state \<Rightarrow> exn option \<times> state" where
  "forEach_update env response [] s = (None, s)"
| "forEach_update env response (u # us) s =
     (case updateOne env response u s of
        (Some e, s') \<Rightarrow> (Some e, s')
      | (None, s') \<Rightarrow> forEach_update env response us s')"

text \<open>\<open>_updateSection\<close>: its own \<open>try\<close>/\<open>catch\<close> logs whatever the loop throws and returns normally.\<close>

definition updateSection :: "env \<Rightarrow> (string \<rightharpoonup> string) \<Rightarrow> jsval list \<Rightarrow> state \<Rightarrow> state" where
  "updateSection env response updates s =
     (case forEach_update env response updates s of
        (Some e, s') \<Rightarrow> emit ConsoleError s'
      | (None, s') \<Rightarrow> s')"

section \<open>History and title\<close>

definition updateHistory :: "env \<Rightarrow> state \<Rightarrow> exn option \<times> state" where
  "updateHistory env s =
     (let (r, s1) =
            (case updateUrl s of
               None \<Rightarrow> (None, s)
             | Some u \<Rightarrow>
                 if historyMode s = ''add'' \<or> historyMode s = ''push'' then
                   (if history_accepts env u then (None, emit (PushState u) s)
                    else (Some DOMException, s))
                 else if historyMode s = ''replace'' then
                   (if history_accepts env u then (None, emit (ReplaceState u) s)
                    else (Some DOMException, s))
                 else (None, s))
      in case r of
           Some e \<Rightarrow> (Some e, s1)
         | None \<Rightarrow>
             (case updateTitle s1 of
                None \<Rightarrow> (None, s1)
              | Some t \<Rightarrow> (None, emit (SetTitle t) s1)))"

section \<open>One activation\<close>

text \<open>
  The \<open>try\<close> block of \<open>_handleTrigger\<close> up to the awaited race (lines 144 to 183):
  resolution, validation, the loading toggle and the request. The result is the response with
  the batch to apply, or what was thrown.
\<close>

definition request :: "env \<Rightarrow> trigger \<Rightarrow> state \<Rightarrow> (exn + (string \<rightharpoonup> string) \<times> jsval list) \<times> state" where
  "request env t s =
     (case resolve env t s of
        (Inl e, s1) \<Rightarrow> (Inl e, s1)
      | (Inr (sections, updates), s1) \<Rightarrow>
          if \<not> isValidUpdates updates then (Inl (Error ''Invalid `updates` structure''), s1)
          else
            (case toggleLoading s1 of
               (Some e, s2) \<Rightarrow> (Inl e, s2)
             | (None, s2) \<Rightarrow>
                 (case fetchRace env sections t s2 of
                    (Inl e, s3) \<Rightarrow> (Inl e, s3)
                  | (Inr response, s3) \<Rightarrow> (Inr (response, updates), s3))))"

text \<open>The whole \<open>try\<close> block: \<open>None\<close> when it runs to its end, otherwise what it throws.\<close>

definition tryBlock :: "env \<Rightarrow> trigger \<Rightarrow> state \<Rightarrow> exn option \<times> state" where
  "tryBlock env t s =
     (case request env t s of
        (Inl e, s3) \<Rightarrow> (Some e, s3)
      | (Inr (response, updates), s3) \<Rightarrow>
          updateHistory env (updateSection env response updates s3))"

text \<open>
  \<open>_handleTrigger\<close>, one activation run from start to end: the \<open>catch\<close> logs and dispatches
  the error event, the \<open>finally\<close> toggles the loading state. The first component is what
  the returned promise rejects with (\<open>None\<close>: it resolves). An activation is one step here:
  what other code does between the request and its answer, another activation included, is
  not part of this model.
\<close>

definition handleTrigger :: "env \<Rightarrow> trigger \<Rightarrow> state \<Rightarrow> exn option \<times> state" where
  "handleTrigger env t s =
     (case tryBlock env t s of
        (Some e, s1) \<Rightarrow> toggleLoading (event ev_error (emit ConsoleError s1))
      | (None, s1) \<Rightarrow> toggleLoading s1)"

section \<open>Binding listeners\<close>

definition acceptedEvents :: "(string \<times> jsval) list" where
  "acceptedEvents =
     [(''*'', JStr ''click''),
      (''button'', JStr ''click''),
      (''form'', JStr ''submit''),
      (''input'', JStr ''input''),
      (''select'', JStr ''change''),
      (''textarea'', JStr ''input'')]"

definition getEventType :: "trigger \<Rightarrow> jsval" where
  "getEventType t =
     (let element = toLowerCase (tagName t) in
      if truthy (object_get acceptedEvents element) then object_get acceptedEvents element
      else object_get acceptedEvents ''*'')"

text \<open>\<open>Map.set\<close>: the entry of an existing key is overwritten in place, a new key goes last.\<close>

fun map_set :: "(node \<times> jsval) list \<Rightarrow> node \<Rightarrow> jsval \<Rightarrow> (node \<times> jsval) list" where
  "map_set [] k v = [(k, v)]"
| "map_set (p # ps) k v = (if fst p = k then (k, v) # ps else p # map_set ps k v)"

fun forEach_trigger :: "trigger list \<Rightarrow> state \<Rightarrow> exn option \<times> state" where
  "forEach_trigger [] s = (None, s)"
| "forEach_trigger (t # ts) s =
     (let eventType = getEventType t in
      if \<not> truthy eventType then (Some (Error ''Invalid event type''), emit ConsoleWarn s)
      else forEach_trigger ts
             (emit (AddEventListener (tid t) eventType)
                (s\<lparr>boundEventListeners := map_set (boundEventListeners s) (tid t) eventType\<rparr>)))"

definition addEventListeners :: "state \<Rightarrow> exn option \<times> state" where
  "addEventListeners s = (case triggers s of None \<Rightarrow> (None, s) | Some ts \<Rightarrow> forEach_trigger ts s)"

section \<open>The debounce gate and the timers\<close>

definition clearTimeout :: "nat option \<Rightarrow> state \<Rightarrow> state" where
  "clearTimeout h s = s\<lparr>timers := filter (\<lambda>tm. Some (fst tm) \<noteq> h) (timers s)\<rparr>"

definition setTimeout :: "trigger \<Rightarrow> nat \<Rightarrow> nat \<Rightarrow> state \<Rightarrow> nat \<times> state" where
  "setTimeout func wait now s =
     (next_timer s,
      s\<lparr>timers := timers s @ [(next_timer s, now + wait, func)], next_timer := Suc (next_timer s)\<rparr>)"

text \<open>\<open>_debounce(() => this._handleTrigger(trigger), wait)\<close> called at time \<open>now\<close>.\<close>

definition debounce :: "trigger \<Rightarrow> nat \<Rightarrow> nat \<Rightarrow> state \<Rightarrow> state" where
  "debounce func wait now s =
     (let s1 = clearTimeout (timeoutId s) s;
          (h, s2) = setTimeout func wait now s1
      in s2\<lparr>timeoutId := Some h\<rparr>)"

definition boundListener :: "trigger \<Rightarrow> nat \<Rightarrow> state \<Rightarrow> state" where
  "boundListener t now s = debounce t (debounceTime s) now (emit (PreventDefault (tid t)) s)"

section \<open>Attaching and detaching\<close>

definition findElements :: "env \<Rightarrow> state \<Rightarrow> string \<Rightarrow> bool \<Rightarrow> trigger list option" where
  "findElements env s selector forceScoped =
     (let elements = (if scoped s \<or> forceScoped then this_querySelectorAll env selector
                      else document_querySelectorAll env selector)
      in if length elements > 0 then Some elements else None)"

definition findTriggers :: "env \<Rightarrow> state \<Rightarrow> state" where
  "findTriggers env s =
     s\<lparr>triggers := findElements env s ''[trigger]'' True,
       triggerInits := findElements env s ''[trigger-init]'' True,
       triggerIntersects := findElements env s ''[trigger-intersect]'' True\<rparr>"

definition isInvalidInit :: "state \<Rightarrow> bool" where
  "isInvalidInit s = (triggers s = None \<and> triggerInits s = None \<and> triggerIntersects s = None)"

definition findLoadingElement :: "env \<Rightarrow> state \<Rightarrow> exn option \<times> state" where
  "findLoadingElement env s =
     (case loadingSelector s of
        None \<Rightarrow> (None, s)
      | Some sel \<Rightarrow>
          (case findElement env s sel False of
             Inl e \<Rightarrow> (Some e, s)
           | Inr found \<Rightarrow>
               (let s1 = s\<lparr>loadingElement := found\<rparr>;
                    s2 = (case found of
                            None \<Rightarrow> s1
                          | Some el \<Rightarrow> if hasAttribute env el ''cloak''
                                       then emit (RemoveAttribute el ''cloak'') s1 else s1);
                    s3 = (case (loadingClass s2, found) of
                            (None, Some el) \<Rightarrow> emit (SetDisplay el ''none'') s2
                          | other \<Rightarrow> s2)
                in (None, s3))))"

definition observeIntersections :: "state \<Rightarrow> state" where
  "observeIntersections s =
     (case triggerIntersects s of
        None \<Rightarrow> s
      | Some els \<Rightarrow> fold (\<lambda>el st. emit (Observe (tid el)) st) els (s\<lparr>observer := True\<rparr>))"

text \<open>
  \<open>connectedCallback\<close>. The activations it starts for the \<open>trigger-init\<close> elements are
  runs of \<open>handleTrigger\<close> of their own.
\<close>

definition connectedCallback :: "env \<Rightarrow> state \<Rightarrow> exn option \<times> state" where
  "connectedCallback env s =
     (let s1 = findTriggers env s in
      if isInvalidInit s1 then (None, emit ConsoleWarn s1)
      else
        (case addEventListeners s1 of
           (Some e, s2) \<Rightarrow> (Some e, s2)
         | (None, s2) \<Rightarrow>
             (case findLoadingElement env s2 of
                (Some e, s3) \<Rightarrow> (Some e, s3)
              | (None, s3) \<Rightarrow> (None, observeIntersections (event ev_init s3)))))"

definition attributeChangedCallback :: "string \<Rightarrow> string option \<Rightarrow> string option \<Rightarrow> state \<Rightarrow> state" where
  "attributeChangedCallback name oldValue newValue s =
     (if oldValue = newValue then s
      else if name = ''update-title'' then
        s\<lparr>updateTitle := (case newValue of None \<Rightarrow> None | Some v \<Rightarrow> if v = [] then None else Some v)\<rparr>
      else if name = ''update-url'' then
        s\<lparr>updateUrl := (case newValue of None \<Rightarrow> None | Some v \<Rightarrow> if v = [] then None else Some v)\<rparr>
      else s)"

definition disconnectedCallback :: "state \<Rightarrow> state" where
  "disconnectedCallback s =
     (let s1 = event ev_destroy s;
          s2 = (case timeoutId s1 of
                  None \<Rightarrow> s1
                | Some h \<Rightarrow> if h \<noteq> 0 then clearTimeout (Some h) s1 else s1);
          s3 = fold (\<lambda>b st. emit (RemoveEventListener (fst b) (snd b)) st) (boundEventListeners s2) s2;
          s4 = s3\<lparr>boundEventListeners := [], loadingElement := None, triggers := None\<rparr>
      in if observer s4 then (emit Disconnect s4)\<lparr>observer := False\<rparr> else s4)"

text \<open>The observer's callback for one entry that is intersecting.\<close>

definition intersected :: "env \<Rightarrow> trigger \<Rightarrow> state \<Rightarrow> state" where
  "intersected env t s =
     (let once = (toLowerCase (case attr_or_null t ''intersect-once'' of None \<Rightarrow> ''true'' | Some v \<Rightarrow> v)
                  = ''true'');
          s1 = snd (handleTrigger env t s)
      in if once then emit (Unobserve (tid t)) s1 else s1)"

text \<open>
  The timers that are due at time \<open>now\<close> run in the order of their due times; the callback
  of a debounce timer is one activation.
\<close>

definition fire_due :: "env \<Rightarrow> nat \<Rightarrow> state \<Rightarrow> state" where
  "fire_due env now s =
     (let due = sort_key (\<lambda>tm. fst (snd tm)) (filter (\<lambda>tm. fst (snd tm) \<le> now) (timers s));
          s1 = s\<lparr>timers := filter (\<lambda>tm. \<not> fst (snd tm) \<le> now) (timers s)\<rparr>
      in fold (\<lambda>tm st. snd (handleTrigger env (snd (snd tm)) (emit (TimerFired (fst (snd tm)) (tid (snd (snd tm)))) st)))
           due s1)"

text \<open>
  What can happen to an instance, each at its time: it is attached or detached, an observed
  attribute changes, a bound listener receives its event, an observed trigger comes into
  view, a trigger is activated directly, or time passes and the due timers run.
\<close>

datatype call =
    Connected
  | Disconnected
  | AttributeChanged string "string option" "string option"
  | ListenerEvent trigger
  | Intersected trigger
  | Activated trigger
  | Idle

definition step :: "env \<Rightarrow> nat \<Rightarrow> call \<Rightarrow> state \<Rightarrow> state" where
  "step env now c s =
     (let s1 = fire_due env now s in
      case c of
        Connected \<Rightarrow> snd (connectedCallback env s1)
      | Disconnected \<Rightarrow> disconnectedCallback s1
      | AttributeChanged name oldValue newValue \<Rightarrow> attributeChangedCallback name oldValue newValue s1
      | ListenerEvent t \<Rightarrow> boundListener t now s1
      | Intersected t \<Rightarrow> intersected env t s1
      | Activated t \<Rightarrow> snd (handleTrigger env t s1)
      | Idle \<Rightarrow> s1)"

fun run :: "(env \<times> nat \<times> call) list \<Rightarrow> state \<Rightarrow> state" where
  "run [] s = s"
| "run ((env, now, c) # cs) s = run cs (step env now c s)"

section \<open>A concrete page\<close>

text \<open>
  One section \<open>a\<close> served as a fragment, a destination \<open>#d\<close> (node 1) inside the
  component, an element \<open>#outside\<close> (node 2) that only a search of the whole document
  finds, and the page path \<open>/\<close>.
\<close>

definition fragment_a :: string where
  \<open>fragment_a = ''<div id="shopify-section-a">X</div>''\<close>

definition updates_plain :: string where
  \<open>updates_plain = ''[{"section": "a", "destination": "#d"}]''\<close>

definition updates_replace :: string where
  \<open>updates_replace = ''[{"section": "a", "destination": "#d", "updateMode": "replace"}]''\<close>

definition updates_empty_strings :: string where
  \<open>updates_empty_strings = ''[{"section": "", "destination": ""}]''\<close>

definition updates_number :: string where
  \<open>updates_number = ''[{"section": 1, "destination": "#d"}]''\<close>

definition shop :: env where
  "shop = \<lparr>
     JSON_parse = (\<lambda>str.
       if str = updates_plain then
         Some (JArr [JObj [(''section'', JStr ''a''), (''destination'', JStr ''#d'')]])
       else if str = updates_replace then
         Some (JArr [JObj [(''section'', JStr ''a''), (''destination'', JStr ''#d''),
                           (''updateMode'', JStr ''replace'')]])
       else if str = updates_empty_strings then
         Some (JArr [JObj [(''section'', JStr []), (''destination'', JStr [])]])
       else if str = updates_number then
         Some (JArr [JObj [(''section'', JNum 1), (''destination'', JStr ''#d'')]])
       else None),
     URL_new = (\<lambda>str.
       if str = ''/'' then
         Some \<lparr>location = ''https://shop.example/'', searchParams = [], hash = []\<rparr>
       else if str = ''/products/x?variant=1&sections=old'' then
         Some \<lparr>location = ''https://shop.example/products/x'',
               searchParams = [(''variant'', ''1''), (''sections'', ''old'')], hash = []\<rparr>
       else None),
     pathname = ''/'',
     fetch_race = (\<lambda>u. Response [''a'' \<mapsto> fragment_a]),
     this_querySelector = (\<lambda>d sel. Inr (if sel = ''#d'' then Some 1 else None)),
     document_querySelector = (\<lambda>d sel.
       Inr (if sel = ''#d'' then Some 1 else if sel = ''#outside'' then Some 2 else None)),
     doc_querySelector = (\<lambda>data sel.
       Inr (if data = fragment_a \<and> sel = ''#shopify-section-a'' then Some fragment_a else None)),
     elem_querySelector = (\<lambda>el q. Inr None),
     this_querySelectorAll = (\<lambda>sel. []),
     document_querySelectorAll = (\<lambda>sel. []),
     hasAttribute = (\<lambda>n a. False),
     history_accepts = (\<lambda>u. True) \<rparr>"

text \<open>An instance as the constructor leaves it, without attributes of its own.\<close>

definition fresh :: state where
  "fresh = \<lparr>
     inst_id = ''r1'', loading = False, loadingElement = None, loadingSelector = None,
     loadingClass = None, scoped = True, historyMode = ''replace'', updateUrl = None,
     updateTitle = None, renderUrl = None, debounceTime = 300, timeoutId = None,
     triggers = None, triggerInits = None, triggerIntersects = None,
     boundEventListeners = [], observer = False,
     dom = (\<lambda>n. []), trace = [], timers = [], next_timer = 1 \<rparr>"

definition button :: "node \<Rightarrow> (string \<rightharpoonup> string) \<Rightarrow> string option option \<Rightarrow> trigger" where
  "button n as c = \<lparr>tid = n, tagName = ''BUTTON'', attrs = as, closest = c\<rparr>"

text \<open>The same instance on a page whose elements each hold one earlier child.\<close>

definition old_page :: state where
  "old_page = fresh\<lparr>dom := (\<lambda>n. [Element ''old''])\<rparr>"

text \<open>The same instance with \<open>update-url\<close> and \<open>update-title\<close> set.\<close>

definition titled :: state where
  "titled = fresh\<lparr>updateUrl := Some ''/next'', updateTitle := Some ''Next''\<rparr>"

text \<open>A trigger without attributes and outside every section.\<close>

definition bare_button :: trigger where
  "bare_button = button 6 Map.empty None"

text \<open>A trigger whose destination selector matches nothing.\<close>

definition lost_button :: trigger where
  "lost_button = button 7 [''section'' \<mapsto> ''a'', ''destination'' \<mapsto> ''#nowhere''] None"

text \<open>A trigger with a well-formed single update.\<close>

definition plain_button :: trigger where
  "plain_button = button 7 [''section'' \<mapsto> ''a'', ''destination'' \<mapsto> ''#d''] None"

text \<open>A trigger without attributes inside the section \<open>a\<close>.\<close>

definition section_button :: trigger where
  "section_button = button 8 Map.empty (Some (Some ''shopify-section-a''))"

text \<open>A trigger without attributes inside an element of class \<open>shopify-section\<close> that has no id.\<close>

definition idless_button :: trigger where
  "idless_button = button 9 Map.empty (Some None)"

text \<open>An unknown element named \<open>constructor\<close> that carries the trigger marker.\<close>

definition constructor_element :: trigger where
  "constructor_element = \<lparr>tid = 3, tagName = ''CONSTRUCTOR'', attrs = Map.empty, closest = None\<rparr>"

text \<open>The history and title writes, the requests and the error events of a trace.\<close>

fun is_history_write :: "effect \<Rightarrow> bool" where
  "is_history_write (PushState u) = True"
| "is_history_write (ReplaceState u) = True"
| "is_history_write (SetTitle t) = True"
| "is_history_write e = False"

fun is_request :: "effect \<Rightarrow> bool" where
  "is_request (Fetch u) = True"
| "is_request e = False"

fun is_error_event :: "effect \<Rightarrow> bool" where
  "is_error_event (Event name i) = (name = ev_error)"
| "is_error_event e = False"

definition history_writes :: "state \<Rightarrow> effect list" where
  "history_writes s = filter is_history_write (trace s)"

definition requests :: "state \<Rightarrow> effect list" where
  "requests s = filter is_request (trace s)"

definition error_events :: "state \<Rightarrow> effect list" where
  "error_events s = filter is_error_event (trace s)"

section \<open>What an operation leaves alone\<close>

text \<open>
  \<open>frame s s'\<close>: from \<open>s\<close> to \<open>s'\<close> the configuration of the instance, its listeners
  and the timers are the same, and the scoped flag has not been raised. \<open>ext Q s s'\<close>: on
  top of that the trace has only grown, by effects that satisfy \<open>Q\<close>.
\<close>

definition frame :: "state \<Rightarrow> state \<Rightarrow> bool" where
  "frame s s' =
     (inst_id s' = inst_id s \<and> loadingElement s' = loadingElement s \<and>
      loadingSelector s' = loadingSelector s \<and>
      loadingClass s' = loadingClass s \<and> historyMode s' = historyMode s \<and>
      updateUrl s' = updateUrl s \<and> updateTitle s' = updateTitle s \<and>
      renderUrl s' = renderUrl s \<and> debounceTime s' = debounceTime s \<and>
      timeoutId s' = timeoutId s \<and> timers s' = timers s \<and> next_timer s' = next_timer s \<and>
      triggers s' = triggers s \<and> triggerInits s' = triggerInits s \<and>
      triggerIntersects s' = triggerIntersects s \<and>
      boundEventListeners s' = boundEventListeners s \<and> observer s' = observer s \<and>
      (scoped s' \<longrightarrow> scoped s))"

definition ext :: "(effect \<Rightarrow> bool) \<Rightarrow> state \<Rightarrow> state \<Rightarrow> bool" where
  "ext Q s s' = (frame s s' \<and> (\<exists>xs. trace s' = trace s @ xs \<and> list_all Q xs))"

fun is_indicator :: "effect \<Rightarrow> bool" where
  "is_indicator (ClassToggle el c f) = True"
| "is_indicator (SetDisplay el v) = True"
| "is_indicator e = False"

fun is_loading_event :: "effect \<Rightarrow> bool" where
  "is_loading_event (Event n i) = (n = ev_started \<or> n = ev_ended)"
| "is_loading_event e = False"

fun is_console :: "effect \<Rightarrow> bool" where
  "is_console ConsoleWarn = True"
| "is_console ConsoleError = True"
| "is_console e = False"

definition toggles :: "effect \<Rightarrow> bool" where
  "toggles e = (is_indicator e \<or> is_loading_event e)"

definition requesting :: "effect \<Rightarrow> bool" where
  "requesting e = (is_request e \<or> e = ConsoleError)"

definition before_patch :: "effect \<Rightarrow> bool" where
  "before_patch e = (is_console e \<or> toggles e \<or> is_request e)"

text \<open>The loading indicator is absent, or toggled by display, or every class of its list is a valid token.\<close>

definition indicator_ok :: "state \<Rightarrow> bool" where
  "indicator_ok s =
     (case loadingElement s of
        None \<Rightarrow> True
      | Some el \<Rightarrow> (case loadingClass s of None \<Rightarrow> True | Some cls \<Rightarrow> list_all valid_token (split_space cls)))"

text \<open>
  For the debounce gate: the firings of timers in a trace; the effects an activation can
  have; the URL an activation requests, if it gets that far; a burst, a list of listener
  events at non-decreasing times, each less than the debounce interval after the one before;
  and the state a burst leaves behind, in which only the default actions prevented, the
  handle and the one pending timer of the last event differ from the state before.
\<close>

fun is_timer_fired :: "effect \<Rightarrow> bool" where
  "is_timer_fired (TimerFired d n) = True"
| "is_timer_fired e = False"

definition fired :: "state \<Rightarrow> effect list" where
  "fired s = filter is_timer_fired (trace s)"

definition activity :: "effect \<Rightarrow> bool" where
  "activity e = (before_patch e \<or> is_history_write e \<or> is_error_event e)"

definition requested_url :: "env \<Rightarrow> trigger \<Rightarrow> state \<Rightarrow> url option" where
  "requested_url env t s =
     (case resolve env t s of
        (Inl e, s1) \<Rightarrow> None
      | (Inr (sections, updates), s1) \<Rightarrow>
          if isValidUpdates updates then
            (case toggleLoading s1 of
               (Some e, s2) \<Rightarrow> None
             | (None, s2) \<Rightarrow>
                 (case buildUrl env s2 (SArr (map str_of sections)) (Some t) of
                    Inr (Some u) \<Rightarrow> Some u
                  | other \<Rightarrow> None))
          else None)"

fun burst :: "nat \<Rightarrow> (nat \<times> trigger) list \<Rightarrow> bool" where
  "burst w [] = True"
| "burst w [e] = True"
| "burst w (e # e' # es) = (fst e \<le> fst e' \<and> fst e' < fst e + w \<and> burst w (e' # es))"

definition gated :: "state \<Rightarrow> (nat \<times> trigger) list \<Rightarrow> state" where
  "gated s es =
     s\<lparr>trace := trace s @ map (\<lambda>e. PreventDefault (tid (snd e))) es,
       timeoutId := Some (next_timer s + length es - 1),
       next_timer := next_timer s + length es,
       timers := [(next_timer s + length es - 1, fst (last es) + debounceTime s, snd (last es))]\<rparr>"

text \<open>The first toggle is reached exactly when the batch resolves and is valid.\<close>

definition reaches_toggle :: "env \<Rightarrow> trigger \<Rightarrow> state \<Rightarrow> bool" where
  "reaches_toggle env t s =
     (case fst (resolve env t s) of Inl e \<Rightarrow> False | Inr (sections, updates) \<Rightarrow> isValidUpdates updates)"

lemmas string_defs = trim_def collapse_ws_def is_ws_def toLowerCase_def lower_char_def

lemmas value_defs = object_get_def Object_prototype_def set_add_def new_Set_def opt_jsval_def
  descriptor_def isValidUpdates_def isValidUpdate_def

lemmas handler_defs = handleTrigger_def tryBlock_def request_def resolve_def getUpdatesArray_def
  getClosestSection_def attr_or_null_def toggleLoading_def toggleIndicator_def fetchRace_def buildUrl_def
  chosen_renderUrl_def updateSection_def updateOne_def findElement_def applyMode_def
  appendChild_def prepend_def updateHistory_def emit_def event_def
  ev_started_def ev_ended_def ev_error_def

lemmas page_defs = shop_def fresh_def button_def fragment_a_def updates_plain_def
  updates_replace_def updates_empty_strings_def updates_number_def old_page_def titled_def bare_button_def
  lost_button_def plain_button_def constructor_element_def section_button_def idless_button_def

lemmas trace_defs = history_writes_def requests_def error_events_def

section \<open>The sections of a valid batch\<close>

lemma set_add_subset: "set (set_add acc v) \<subseteq> insert v (set acc)"
  by (auto simp: set_add_def)

lemma foldl_set_add_subset: "set (foldl set_add acc vs) \<subseteq> set acc \<union> set vs"
proof (induction vs arbitrary: acc)
  case Nil
  show ?case by simp
next
  case (Cons v vs)
  have "set (foldl set_add (set_add acc v) vs) \<subseteq> set (set_add acc v) \<union> set vs"
    by (rule Cons.IH)
  then show ?case
    using set_add_subset [of acc v] by auto
qed

lemma new_Set_subset: "set (new_Set vs) \<subseteq> set vs"
  using foldl_set_add_subset [of "[]" vs] by (simp add: new_Set_def)

lemma map_section_props:
  "map_section us = Inr vs \<Longrightarrow> vs = map (\<lambda>u. js_prop u ''section'') us"
proof (induction us arbitrary: vs)
  case Nil
  then show ?case by simp
next
  case (Cons u us)
  then show ?case
    by (cases u; cases "map_section us") auto
qed

lemma valid_section_string: "isValidUpdate u \<Longrightarrow> \<exists>x. js_prop u ''section'' = JStr x"
  by (cases "js_prop u ''section''") (simp_all add: isValidUpdate_def)

lemma getUpdatesArray_sections:
  "fst (getUpdatesArray env t s) = (secs, ups) \<Longrightarrow>
   set secs \<subseteq> (\<lambda>u. js_prop u ''section'') ` set ups"
proof -
  assume a: "fst (getUpdatesArray env t s) = (secs, ups)"
  show ?thesis
  proof (cases "attrs t ''updates''")
    case None
    with a show ?thesis by (simp add: getUpdatesArray_def)
  next
    case (Some attr)
    show ?thesis
    proof (cases "JSON_parse env (trim (collapse_ws attr))")
      case None
      with a Some show ?thesis by (simp add: getUpdatesArray_def split: if_splits)
    next
      case (Some v)
      note v = this
      show ?thesis
      proof (cases v)
        case (JArr us)
        show ?thesis
        proof (cases "map_section us")
          case (Inl e)
          with a \<open>attrs t ''updates'' = Some attr\<close> v JArr show ?thesis
            by (simp add: getUpdatesArray_def split: if_splits)
        next
          case (Inr vs)
          have "vs = map (\<lambda>u. js_prop u ''section'') us"
            using Inr by (rule map_section_props)
          then have "set (new_Set vs) \<subseteq> (\<lambda>u. js_prop u ''section'') ` set us"
            using new_Set_subset [of vs] by auto
          with a \<open>attrs t ''updates'' = Some attr\<close> v JArr Inr show ?thesis
            by (auto simp: getUpdatesArray_def split: if_splits)
        qed
      qed (use a \<open>attrs t ''updates'' = Some attr\<close> v in \<open>simp_all add: getUpdatesArray_def split: if_splits\<close>)
    qed
  qed
qed

lemma valid_sections_strings:
  assumes "fst (resolve env t s) = Inr (secs, ups)" and "isValidUpdates ups"
  shows "list_all (\<lambda>v. \<exists>x. v = JStr x) secs"
proof -
  obtain secs0 ups0 s1 where g: "getUpdatesArray env t s = ((secs0, ups0), s1)"
    by (cases "getUpdatesArray env t s") auto
  show ?thesis
  proof (cases "ups0 = []")
    case True
    with assms(1) g show ?thesis
      by (auto simp: resolve_def Let_def split: sum.splits option.splits prod.splits)
  next
    case False
    with assms(1) g have e: "secs = secs0" "ups = ups0"
      by (simp_all add: resolve_def)
    have "set secs \<subseteq> (\<lambda>u. js_prop u ''section'') ` set ups"
      using getUpdatesArray_sections [of env t s secs0 ups0] g e by simp
    moreover have "\<And>u. u \<in> set ups \<Longrightarrow> \<exists>x. js_prop u ''section'' = JStr x"
      using assms(2) by (auto simp: isValidUpdates_def list_all_iff intro: valid_section_string)
    ultimately show ?thesis
      by (fastforce simp: list_all_iff)
  qed
qed

section \<open>Effects and frames of the operations\<close>

lemma frame_trans: "frame s s' \<Longrightarrow> frame s' s'' \<Longrightarrow> frame s s''"
  by (simp add: frame_def)

lemma ext_refl [simp]: "ext Q s s"
  by (simp add: ext_def frame_def)

lemma ext_trans: "ext Q s s' \<Longrightarrow> ext Q s' s'' \<Longrightarrow> ext Q s s''"
  by (auto simp: ext_def frame_def)

lemma ext_mono: "ext Q s s' \<Longrightarrow> (\<And>e. Q e \<Longrightarrow> Q' e) \<Longrightarrow> ext Q' s s'"
  by (auto simp: ext_def list_all_iff)

lemma ext_emit: "Q e \<Longrightarrow> ext Q s (emit e s)"
  by (simp add: ext_def frame_def emit_def)

lemma ext_then_emit: "ext Q s s' \<Longrightarrow> Q e \<Longrightarrow> ext Q s (emit e s')"
  by (auto simp: ext_def frame_def emit_def)

lemma ext_event: "Q (Event n (inst_id s)) \<Longrightarrow> ext Q s (event n s)"
  by (simp add: event_def ext_emit)

lemma ext_loading: "ext Q s (s\<lparr>loading := b\<rparr>)"
  by (simp add: ext_def frame_def)

lemma ext_dom: "ext Q s (s\<lparr>dom := d\<rparr>)"
  by (simp add: ext_def frame_def)

lemma ext_unscoped: "ext Q s (s\<lparr>scoped := False\<rparr>)"
  by (simp add: ext_def frame_def)

lemma ext_filter:
  "ext Q s s' \<Longrightarrow> (\<And>e. Q e \<Longrightarrow> \<not> P e) \<Longrightarrow> filter P (trace s') = filter P (trace s)"
  by (auto simp: ext_def list_all_iff filter_empty_conv)

lemma ext_frame: "ext Q s s' \<Longrightarrow> frame s s'"
  by (simp add: ext_def)

lemma toggle_classes_ext: "ext is_indicator s (snd (toggle_classes el f cs s))"
proof (induction cs arbitrary: s)
  case Nil
  show ?case by simp
next
  case (Cons c cs)
  have "ext is_indicator s (emit (ClassToggle el c f) s)"
    by (simp add: ext_emit)
  then show ?case
    using Cons.IH [of "emit (ClassToggle el c f) s"] by (auto intro: ext_trans)
qed

lemma toggle_classes_ok:
  "list_all valid_token cs \<Longrightarrow> fst (toggle_classes el f cs s) = None"
  by (induction cs arbitrary: s) simp_all

lemma toggleIndicator_ext: "ext is_indicator s (snd (toggleIndicator s))"
  by (simp add: toggleIndicator_def toggle_classes_ext ext_emit split: option.splits)

lemma toggleLoading_ext: "ext toggles s (snd (toggleLoading s))"
proof -
  let ?s1 = "s\<lparr>loading := \<not> loading s\<rparr>"
  obtain r s2 where eq: "toggleIndicator ?s1 = (r, s2)"
    by (cases "toggleIndicator ?s1")
  have "ext is_indicator ?s1 s2"
    using toggleIndicator_ext [of ?s1] eq by simp
  then have a: "ext toggles s s2"
    by (auto intro: ext_trans [OF ext_loading] ext_mono simp: toggles_def)
  have b: "ext toggles s2 (event ev_started s2)" "ext toggles s2 (event ev_ended s2)"
    by (simp_all add: ext_event toggles_def)
  show ?thesis
    using a b eq by (cases r) (auto simp: toggleLoading_def intro: ext_trans)
qed

lemma getUpdatesArray_ext: "ext is_console s (snd (getUpdatesArray env t s))"
  by (simp add: getUpdatesArray_def ext_emit split: option.splits jsval.splits sum.splits)

lemma resolve_ext: "ext is_console s (snd (resolve env t s))"
proof -
  obtain su s1 where eq: "getUpdatesArray env t s = (su, s1)"
    by (cases "getUpdatesArray env t s")
  have a: "ext is_console s s1"
    using getUpdatesArray_ext [of s env t] eq by simp
  have b: "ext is_console s (emit ConsoleWarn s1)" "ext is_console s (s1\<lparr>scoped := False\<rparr>)"
    by (rule ext_trans [OF a], simp add: ext_emit, rule ext_trans [OF a], rule ext_unscoped)
  show ?thesis
    using a b eq
    by (auto simp: resolve_def Let_def split: prod.splits sum.splits option.splits)
qed

lemma fetchRace_ext: "ext requesting s (snd (fetchRace env secs t s))"
proof -
  have a: "\<And>u. ext requesting s (emit (Fetch u) s)"
    by (simp add: ext_emit requesting_def)
  have b: "\<And>u. ext requesting s (emit ConsoleError (emit (Fetch u) s))"
    by (rule ext_then_emit [OF a]) (simp add: requesting_def)
  show ?thesis
    using a b by (simp add: fetchRace_def Let_def split: sum.splits option.splits race.splits)
qed

lemma updateOne_ext: "ext (\<lambda>e. False) s (snd (updateOne env r u s))"
  by (simp add: updateOne_def Let_def ext_dom split: sum.splits option.splits prod.splits)

lemma forEach_update_ext: "ext (\<lambda>e. False) s (snd (forEach_update env r us s))"
proof (induction us arbitrary: s)
  case Nil
  show ?case by simp
next
  case (Cons u us)
  obtain x s1 where eq: "updateOne env r u s = (x, s1)"
    by (cases "updateOne env r u s")
  have a: "ext (\<lambda>e. False) s s1"
    using updateOne_ext [of s env r u] eq by simp
  show ?case
    using a eq Cons.IH [of s1] by (cases x) (auto intro: ext_trans)
qed

lemma updateSection_ext: "ext (\<lambda>e. e = ConsoleError) s (updateSection env r us s)"
proof -
  obtain x s1 where eq: "forEach_update env r us s = (x, s1)"
    by (cases "forEach_update env r us s")
  have a: "ext (\<lambda>e. e = ConsoleError) s s1"
    using forEach_update_ext [of s env r us] eq by (auto intro: ext_mono)
  have b: "ext (\<lambda>e. e = ConsoleError) s (emit ConsoleError s1)"
    by (rule ext_trans [OF a]) (simp add: ext_emit)
  show ?thesis
    using a b eq by (cases x) (simp_all add: updateSection_def)
qed

lemma updateHistory_ext: "ext is_history_write s (snd (updateHistory env s))"
proof -
  have a: "\<And>e. is_history_write e \<Longrightarrow> ext is_history_write s (emit e s)"
    by (simp add: ext_emit)
  have b: "\<And>e e'. is_history_write e \<Longrightarrow> is_history_write e' \<Longrightarrow>
             ext is_history_write s (emit e' (emit e s))"
    by (rule ext_then_emit [OF a])
  show ?thesis
    using a b by (simp add: updateHistory_def Let_def split: option.splits)
qed

lemma request_ext: "ext before_patch s (snd (request env t s))"
proof -
  obtain r s1 where r: "resolve env t s = (r, s1)"
    by (cases "resolve env t s")
  have "ext is_console s s1"
    using resolve_ext [of s env t] r by simp
  then have a: "ext before_patch s s1"
    by (rule ext_mono) (simp add: before_patch_def)
  show ?thesis
  proof (cases r)
    case (Inl e)
    with a r show ?thesis by (simp add: request_def)
  next
    case (Inr su)
    obtain secs ups where su: "su = (secs, ups)" by (cases su)
    obtain x s2 where x: "toggleLoading s1 = (x, s2)"
      by (cases "toggleLoading s1")
    have "ext toggles s1 s2"
      using toggleLoading_ext [of s1] x by simp
    then have "ext before_patch s1 s2"
      by (rule ext_mono) (simp add: before_patch_def)
    with a have b: "ext before_patch s s2"
      by (rule ext_trans)
    obtain y s3 where y: "fetchRace env secs t s2 = (y, s3)"
      by (cases "fetchRace env secs t s2")
    have "ext requesting s2 s3"
      using fetchRace_ext [of s2 env secs t] y by simp
    then have "ext before_patch s2 s3"
      by (rule ext_mono) (auto simp: before_patch_def requesting_def)
    with b have c: "ext before_patch s s3"
      by (rule ext_trans)
    show ?thesis
      using a b c r Inr su x y
      by (cases x; cases y) (simp_all add: request_def)
  qed
qed

lemma handleTrigger_request_failed:
  "request env t s = (Inl e, s3) \<Longrightarrow>
   handleTrigger env t s = toggleLoading (event ev_error (emit ConsoleError s3))"
  by (simp add: handleTrigger_def tryBlock_def)

lemma handleTrigger_requested:
  "request env t s = (Inr (resp, ups), s3) \<Longrightarrow>
   handleTrigger env t s =
     (case updateHistory env (updateSection env resp ups s3) of
        (Some e, s5) \<Rightarrow> toggleLoading (event ev_error (emit ConsoleError s5))
      | (None, s5) \<Rightarrow> toggleLoading s5)"
  by (simp add: handleTrigger_def tryBlock_def)

lemma ev_distinct [simp]:
  "ev_started \<noteq> ev_error" "ev_ended \<noteq> ev_error" "ev_error \<noteq> ev_started" "ev_error \<noteq> ev_ended"
  by (simp_all add: ev_started_def ev_ended_def ev_error_def)

lemma not_error_event:
  "before_patch e \<Longrightarrow> \<not> is_error_event e"
  "toggles e \<Longrightarrow> \<not> is_error_event e"
  "is_history_write e \<Longrightarrow> \<not> is_error_event e"
  "e = ConsoleError \<Longrightarrow> \<not> is_error_event e"
  by (cases e; auto simp: before_patch_def toggles_def)+

lemma not_history_write:
  "before_patch e \<Longrightarrow> \<not> is_history_write e"
  "toggles e \<Longrightarrow> \<not> is_history_write e"
  "e = ConsoleError \<Longrightarrow> \<not> is_history_write e"
  by (cases e; auto simp: before_patch_def toggles_def)+

lemma not_request:
  "is_console e \<Longrightarrow> \<not> is_request e"
  "toggles e \<Longrightarrow> \<not> is_request e"
  "is_history_write e \<Longrightarrow> \<not> is_request e"
  "e = ConsoleError \<Longrightarrow> \<not> is_request e"
  by (cases e; auto simp: toggles_def)+

text \<open>What the catch block and the cleanup add to each kind of effect.\<close>

lemma caught_error_events:
  "error_events (snd (toggleLoading (event ev_error (emit ConsoleError s))))
     = error_events s @ [Event ev_error (inst_id s)]"
proof -
  have "filter is_error_event (trace (snd (toggleLoading (event ev_error (emit ConsoleError s)))))
          = filter is_error_event (trace (event ev_error (emit ConsoleError s)))"
    by (rule ext_filter [OF toggleLoading_ext]) (rule not_error_event)
  then show ?thesis
    by (simp add: error_events_def event_def emit_def)
qed

lemma caught_history_writes:
  "history_writes (snd (toggleLoading (event ev_error (emit ConsoleError s)))) = history_writes s"
proof -
  have "filter is_history_write (trace (snd (toggleLoading (event ev_error (emit ConsoleError s)))))
          = filter is_history_write (trace (event ev_error (emit ConsoleError s)))"
    by (rule ext_filter [OF toggleLoading_ext]) (rule not_history_write)
  then show ?thesis
    by (simp add: history_writes_def event_def emit_def)
qed

lemma caught_requests:
  "requests (snd (toggleLoading (event ev_error (emit ConsoleError s)))) = requests s"
proof -
  have "filter is_request (trace (snd (toggleLoading (event ev_error (emit ConsoleError s)))))
          = filter is_request (trace (event ev_error (emit ConsoleError s)))"
    by (rule ext_filter [OF toggleLoading_ext]) (rule not_request)
  then show ?thesis
    by (simp add: requests_def event_def emit_def)
qed

lemma cleanup_error_events: "error_events (snd (toggleLoading s)) = error_events s"
  unfolding error_events_def by (rule ext_filter [OF toggleLoading_ext]) (rule not_error_event)

lemma cleanup_history_writes: "history_writes (snd (toggleLoading s)) = history_writes s"
  unfolding history_writes_def by (rule ext_filter [OF toggleLoading_ext]) (rule not_history_write)

lemma request_error_events: "error_events (snd (request env t s)) = error_events s"
  unfolding error_events_def by (rule ext_filter [OF request_ext]) (rule not_error_event)

lemma request_history_writes: "history_writes (snd (request env t s)) = history_writes s"
  unfolding history_writes_def by (rule ext_filter [OF request_ext]) (rule not_history_write)

lemma request_inst_id: "inst_id (snd (request env t s)) = inst_id s"
  using ext_frame [OF request_ext, of s env t] by (simp add: frame_def)

lemma updateSection_error_events: "error_events (updateSection env r us s) = error_events s"
  unfolding error_events_def by (rule ext_filter [OF updateSection_ext]) (rule not_error_event)

lemma updateSection_history_writes: "history_writes (updateSection env r us s) = history_writes s"
  unfolding history_writes_def by (rule ext_filter [OF updateSection_ext]) (rule not_history_write)

lemma updateHistory_error_events: "error_events (snd (updateHistory env s)) = error_events s"
  unfolding error_events_def by (rule ext_filter [OF updateHistory_ext]) (rule not_error_event)

lemma indicator_ok_frame: "frame s s' \<Longrightarrow> indicator_ok s' = indicator_ok s"
  by (simp add: frame_def indicator_ok_def cong: option.case_cong)

lemma indicator_ok_loading: "indicator_ok (s\<lparr>loading := b\<rparr>) = indicator_ok s"
  by (simp add: indicator_ok_def cong: option.case_cong)

lemma toggleIndicator_ok: "indicator_ok s \<Longrightarrow> fst (toggleIndicator s) = None"
  by (simp add: indicator_ok_def toggleIndicator_def toggle_classes_ok split: option.splits)

lemma toggleLoading_ok: "indicator_ok s \<Longrightarrow> fst (toggleLoading s) = None"
proof -
  assume ok: "indicator_ok s"
  let ?s1 = "s\<lparr>loading := \<not> loading s\<rparr>"
  have "indicator_ok ?s1"
    using ok by (simp add: indicator_ok_loading)
  then have "fst (toggleIndicator ?s1) = None"
    by (rule toggleIndicator_ok)
  then show ?thesis
    by (cases "toggleIndicator ?s1") (simp add: toggleLoading_def)
qed

lemma tryBlock_ext: "ext (\<lambda>e. before_patch e \<or> is_history_write e) s (snd (tryBlock env t s))"
proof -
  let ?Q = "\<lambda>e. before_patch e \<or> is_history_write e"
  obtain r s3 where r: "request env t s = (r, s3)"
    by (cases "request env t s")
  have "ext before_patch s s3"
    using request_ext [of s env t] r by simp
  then have a: "ext ?Q s s3"
    by (rule ext_mono) simp
  show ?thesis
  proof (cases r)
    case (Inl e)
    with a r show ?thesis by (simp add: tryBlock_def)
  next
    case (Inr ru)
    obtain resp ups where ru: "ru = (resp, ups)" by (cases ru)
    have "ext (\<lambda>e. e = ConsoleError) s3 (updateSection env resp ups s3)"
      by (rule updateSection_ext)
    then have "ext ?Q s3 (updateSection env resp ups s3)"
      by (rule ext_mono) (simp add: before_patch_def)
    with a have b: "ext ?Q s (updateSection env resp ups s3)"
      by (rule ext_trans)
    have "ext is_history_write (updateSection env resp ups s3)
            (snd (updateHistory env (updateSection env resp ups s3)))"
      by (rule updateHistory_ext)
    then have "ext ?Q (updateSection env resp ups s3)
            (snd (updateHistory env (updateSection env resp ups s3)))"
      by (rule ext_mono) simp
    with b have "ext ?Q s (snd (updateHistory env (updateSection env resp ups s3)))"
      by (rule ext_trans)
    with r Inr ru show ?thesis by (simp add: tryBlock_def)
  qed
qed

lemma tryBlock_frame: "frame s (snd (tryBlock env t s))"
  by (rule ext_frame [OF tryBlock_ext])

lemma handleTrigger_returns: "indicator_ok s \<Longrightarrow> fst (handleTrigger env t s) = None"
proof -
  assume ok: "indicator_ok s"
  obtain r s1 where r: "tryBlock env t s = (r, s1)"
    by (cases "tryBlock env t s")
  have f: "frame s s1"
    using tryBlock_frame [of s env t] r by simp
  then have ok1: "indicator_ok s1"
    using ok by (simp add: indicator_ok_frame)
  have "frame s1 (event ev_error (emit ConsoleError s1))"
    by (simp add: frame_def event_def emit_def)
  then have ok2: "indicator_ok (event ev_error (emit ConsoleError s1))"
    using ok1 by (simp add: indicator_ok_frame)
  show ?thesis
    using r ok1 ok2 by (cases r) (simp_all add: handleTrigger_def toggleLoading_ok)
qed

lemma updateHistory_writes:
  "frame s s' \<Longrightarrow>
   history_writes (snd (updateHistory env s'))
     = history_writes s' @ history_writes (snd (updateHistory env (s\<lparr>trace := []\<rparr>)))"
  by (auto simp: frame_def updateHistory_def history_writes_def emit_def Let_def
      split: option.splits)

lemma updateSection_frame: "frame s (updateSection env r us s)"
  by (rule ext_frame [OF updateSection_ext])

lemma isValidUpdate_iff:
  "isValidUpdate u \<longleftrightarrow>
     (\<exists>fs a b. u = JObj fs \<and> map_of fs ''section'' = Some (JStr a) \<and>
                map_of fs ''destination'' = Some (JStr b))"
proof (cases u)
  case (JObj fs)
  have p: "map_of Object_prototype ''section'' = None" "map_of Object_prototype ''destination'' = None"
    by (simp_all add: Object_prototype_def)
  have s: "\<And>v. typeof v = ''string'' \<longleftrightarrow> (\<exists>a. v = JStr a)"
    by (case_tac v) simp_all
  show ?thesis
    using JObj p by (auto simp: isValidUpdate_def object_get_def s split: option.splits)
qed (simp_all add: isValidUpdate_def)

lemma resolve_requests: "requests (snd (resolve env t s)) = requests s"
  unfolding requests_def by (rule ext_filter [OF resolve_ext]) (rule not_request)

section \<open>The loading cycle of an activation\<close>

lemma toggle_classes_loading: "loading (snd (toggle_classes el f cs s)) = loading s"
  by (induction cs arbitrary: s) (simp_all add: emit_def)

lemma toggleLoading_flips: "loading (snd (toggleLoading s)) = (\<not> loading s)"
proof -
  let ?s1 = "s\<lparr>loading := \<not> loading s\<rparr>"
  have "loading (snd (toggleIndicator ?s1)) = loading ?s1"
    by (simp add: toggleIndicator_def toggle_classes_loading emit_def split: option.splits)
  then show ?thesis
    by (cases "toggleIndicator ?s1"; cases "fst (toggleIndicator ?s1)")
       (simp_all add: toggleLoading_def event_def emit_def)
qed

lemma resolve_loading: "loading (snd (resolve env t s)) = loading s"
proof -
  have "loading (snd (getUpdatesArray env t s)) = loading s"
    by (simp add: getUpdatesArray_def emit_def split: option.splits jsval.splits sum.splits)
  then show ?thesis
    by (cases "getUpdatesArray env t s")
       (auto simp: resolve_def Let_def emit_def split: prod.splits sum.splits option.splits)
qed

lemma fetchRace_loading: "loading (snd (fetchRace env secs t s)) = loading s"
  by (simp add: fetchRace_def Let_def emit_def split: sum.splits option.splits race.splits)

lemma updateOne_loading: "loading (snd (updateOne env r u s)) = loading s"
  by (simp add: updateOne_def Let_def split: sum.splits option.splits prod.splits)

lemma forEach_update_loading: "loading (snd (forEach_update env r us s)) = loading s"
proof (induction us arbitrary: s)
  case Nil
  show ?case by simp
next
  case (Cons u us)
  obtain x s1 where eq: "updateOne env r u s = (x, s1)"
    by (cases "updateOne env r u s")
  have "loading s1 = loading s"
    using updateOne_loading [of env r u s] eq by simp
  then show ?case
    using eq Cons.IH [of s1] by (cases x) simp_all
qed

lemma updateSection_loading: "loading (updateSection env r us s) = loading s"
  using forEach_update_loading [of env r us s]
  by (cases "forEach_update env r us s"; cases "fst (forEach_update env r us s)")
     (simp_all add: updateSection_def emit_def)

lemma updateHistory_loading: "loading (snd (updateHistory env s)) = loading s"
  by (simp add: updateHistory_def Let_def emit_def split: option.splits)

lemma caught_loading: "loading (snd (toggleLoading (event ev_error (emit ConsoleError s)))) = (\<not> loading s)"
  by (simp add: toggleLoading_flips event_def emit_def)

lemma request_loading:
  "loading (snd (request env t s)) = (if reaches_toggle env t s then \<not> loading s else loading s)"
proof -
  obtain x s1 where x: "resolve env t s = (x, s1)"
    by (cases "resolve env t s")
  have a: "loading s1 = loading s"
    using resolve_loading [of env t s] x by simp
  show ?thesis
  proof (cases x)
    case (Inl e)
    with x a show ?thesis by (simp add: request_def reaches_toggle_def)
  next
    case (Inr su)
    obtain secs ups where su: "su = (secs, ups)" by (cases su)
    show ?thesis
    proof (cases "isValidUpdates ups")
      case False
      with x Inr su a show ?thesis by (simp add: request_def reaches_toggle_def)
    next
      case True
      obtain y s2 where y: "toggleLoading s1 = (y, s2)"
        by (cases "toggleLoading s1")
      have b: "loading s2 = (\<not> loading s)"
        using toggleLoading_flips [of s1] y a by simp
      have c: "loading (snd (fetchRace env secs t s2)) = (\<not> loading s)"
        using b by (simp add: fetchRace_loading)
      show ?thesis
        using x Inr su True y b c
        by (cases y; cases "fetchRace env secs t s2"; cases "fst (fetchRace env secs t s2)")
           (simp_all add: request_def reaches_toggle_def)
    qed
  qed
qed

lemma handleTrigger_loading:
  "loading (snd (handleTrigger env t s)) = (if reaches_toggle env t s then loading s else \<not> loading s)"
proof -
  obtain r s3 where r: "request env t s = (r, s3)"
    by (cases "request env t s")
  have a: "loading s3 = (if reaches_toggle env t s then \<not> loading s else loading s)"
    using request_loading [of env t s] r by simp
  show ?thesis
  proof (cases r)
    case (Inl e)
    with r a show ?thesis
      by (simp add: handleTrigger_request_failed caught_loading)
  next
    case (Inr ru)
    obtain resp ups where ru: "ru = (resp, ups)" by (cases ru)
    have q: "request env t s = (Inr (resp, ups), s3)"
      using r Inr ru by simp
    obtain x s5 where x: "updateHistory env (updateSection env resp ups s3) = (x, s5)"
      by (cases "updateHistory env (updateSection env resp ups s3)")
    have "loading s5 = loading s3"
      using updateHistory_loading [of env "updateSection env resp ups s3"] x
      by (simp add: updateSection_loading)
    with a x show ?thesis
      by (cases x) (simp_all add: handleTrigger_requested [OF q] toggleLoading_flips event_def emit_def)
  qed
qed

text \<open>
  C1. Every activation should end with the loading state reset: \<open>started\<close> before the
  request, \<open>ended\<close> after the success or the error, as many of one as of the other, and
  the loading flag never left set by an error path. The cleanup of \<open>_handleTrigger\<close> is
  a toggle, so an activation that fails before the first toggle (here: a trigger with no
  attributes and no enclosing section, on a fresh instance) dispatches the error event, then
  \<open>started\<close>, never \<open>ended\<close>, and returns with the loading flag set. The flag stays
  out of step from then on: the next activation, a successful one, dispatches \<open>ended\<close>
  before its request and \<open>started\<close> after it, and leaves the flag set again. In general
  an activation restores the flag exactly when it gets as far as its first toggle, that is
  when its batch resolves and is valid; otherwise it inverts the flag.
\<close>

theorem C1_early_failure_leaves_loading_set:
  "loading (snd (handleTrigger env t s))
     = (if reaches_toggle env t s then loading s else \<not> loading s) \<and>
   fst (handleTrigger shop bare_button fresh) = None \<and>
   loading (snd (handleTrigger shop bare_button fresh)) \<and>
   trace (snd (handleTrigger shop bare_button fresh))
     = [ConsoleWarn, ConsoleError, Event ev_error ''r1'', Event ev_started ''r1''] \<and>
   loading (snd (handleTrigger shop plain_button (snd (handleTrigger shop bare_button fresh)))) \<and>
   trace (snd (handleTrigger shop plain_button (snd (handleTrigger shop bare_button fresh))))
     = [ConsoleWarn, ConsoleError, Event ev_error ''r1'', Event ev_started ''r1'',
        Event ev_ended ''r1'',
        Fetch \<lparr>location = ''https://shop.example/'', searchParams = [(''sections'', ''a'')], hash = []\<rparr>,
        Event ev_started ''r1'']"
proof -
  have a: "handleTrigger shop bare_button fresh
    = (None, fresh\<lparr>loading := True,
        trace := [ConsoleWarn, ConsoleError, Event ev_error ''r1'', Event ev_started ''r1'']\<rparr>)"
    by (simp add: handler_defs page_defs)
  have "fst (handleTrigger shop bare_button fresh) = None \<and>
   loading (snd (handleTrigger shop bare_button fresh)) \<and>
   trace (snd (handleTrigger shop bare_button fresh))
     = [ConsoleWarn, ConsoleError, Event ev_error ''r1'', Event ev_started ''r1''] \<and>
   loading (snd (handleTrigger shop plain_button (snd (handleTrigger shop bare_button fresh)))) \<and>
   trace (snd (handleTrigger shop plain_button (snd (handleTrigger shop bare_button fresh))))
     = [ConsoleWarn, ConsoleError, Event ev_error ''r1'', Event ev_started ''r1'',
        Event ev_ended ''r1'',
        Fetch \<lparr>location = ''https://shop.example/'', searchParams = [(''sections'', ''a'')], hash = []\<rparr>,
        Event ev_started ''r1'']"
    unfolding a by (simp add: handler_defs page_defs string_defs value_defs)
  then show ?thesis
    using handleTrigger_loading [of env t s] by simp
qed

section \<open>Failures while patching\<close>

text \<open>
  C2, as stated, fails: a descriptor whose destination is not found makes the patch loop
  throw, \<open>_updateSection\<close> catches and logs it, and the activation dispatches no error
  event.
\<close>

theorem C2_counterexample:
  "fst (request shop lost_button fresh)
     = Inr ([''a'' \<mapsto> fragment_a], [descriptor ''a'' ''#nowhere'' ''replace'' None]) \<and>
   fst (forEach_update shop [''a'' \<mapsto> fragment_a] [descriptor ''a'' ''#nowhere'' ''replace'' None]
          (snd (request shop lost_button fresh)))
     = Some (Error ''Failed to find destination element'') \<and>
   error_events (snd (handleTrigger shop lost_button fresh)) = []"
  by (simp add: handler_defs page_defs string_defs value_defs trace_defs)

text \<open>
  C3, as stated, fails: with the same failing patch and \<open>update-url\<close>, \<open>update-title\<close>
  set, the history entry is replaced and the title is written all the same.
\<close>

theorem C3_counterexample:
  "fst (forEach_update shop [''a'' \<mapsto> fragment_a] [descriptor ''a'' ''#nowhere'' ''replace'' None]
          (snd (request shop lost_button titled)))
     = Some (Error ''Failed to find destination element'') \<and>
   history_writes (snd (handleTrigger shop lost_button titled))
     = [ReplaceState ''/next'', SetTitle ''Next'']"
  by (simp add: handler_defs page_defs string_defs value_defs trace_defs)

text \<open>
  C2, amended. When the instance has no loading indicator, or one whose class list is well
  formed, an activation throws nothing to its caller. Whenever a step from resolution to the
  end of the raced request fails (resolution, validation, the loading toggle, the URL, the
  fetch, the timeout), the activation dispatches the error event once. The patcher catches
  what its own loop throws, a destination that is not found included, and dispatches no
  error event for it: once the response is there, the activation ends without an error event
  unless the history write throws.
\<close>

theorem C2_failures_and_the_error_event:
  "(indicator_ok s \<longrightarrow> fst (handleTrigger env t s) = None) \<and>
   (fst (request env t s) = Inl e \<longrightarrow>
      error_events (snd (handleTrigger env t s)) = error_events s @ [Event ev_error (inst_id s)]) \<and>
   error_events (updateSection env resp ups s) = error_events s \<and>
   (fst (request env t s) = Inr (resp, ups) \<longrightarrow>
    fst (updateHistory env (updateSection env resp ups (snd (request env t s)))) = None \<longrightarrow>
      error_events (snd (handleTrigger env t s)) = error_events s)"
proof (intro conjI impI)
  assume "indicator_ok s"
  then show "fst (handleTrigger env t s) = None"
    by (rule handleTrigger_returns)
next
  assume a: "fst (request env t s) = Inl e"
  obtain s3 where r: "request env t s = (Inl e, s3)"
    using a by (cases "request env t s") simp
  have "error_events s3 = error_events s" "inst_id s3 = inst_id s"
    using request_error_events [of env t s] request_inst_id [of env t s] r by simp_all
  then show "error_events (snd (handleTrigger env t s)) = error_events s @ [Event ev_error (inst_id s)]"
    by (simp add: handleTrigger_request_failed [OF r] caught_error_events)
next
  show "error_events (updateSection env resp ups s) = error_events s"
    by (rule updateSection_error_events)
next
  assume a: "fst (request env t s) = Inr (resp, ups)"
    and h: "fst (updateHistory env (updateSection env resp ups (snd (request env t s)))) = None"
  obtain s3 where r: "request env t s = (Inr (resp, ups), s3)"
    using a by (cases "request env t s") simp
  obtain s5 where u: "updateHistory env (updateSection env resp ups s3) = (None, s5)"
    using h r by (cases "updateHistory env (updateSection env resp ups s3)") simp
  have "error_events s5 = error_events (updateSection env resp ups s3)"
    using updateHistory_error_events [of env "updateSection env resp ups s3"] u by simp
  also have "\<dots> = error_events s3"
    by (rule updateSection_error_events)
  also have "\<dots> = error_events s"
    using request_error_events [of env t s] r by simp
  finally show "error_events (snd (handleTrigger env t s)) = error_events s"
    by (simp add: handleTrigger_requested [OF r] u cleanup_error_events)
qed

text \<open>C2, amended, at the concrete page: a trigger that cannot be resolved, and one whose destination is missing.\<close>

theorem C2_witness:
  "indicator_ok fresh \<and>
   fst (handleTrigger shop bare_button fresh) = None \<and>
   fst (request shop bare_button fresh) = Inl (Error ''could not find closest parent Shopify section'') \<and>
   error_events (snd (handleTrigger shop bare_button fresh)) = [Event ev_error ''r1''] \<and>
   fst (request shop lost_button fresh)
     = Inr ([''a'' \<mapsto> fragment_a], [descriptor ''a'' ''#nowhere'' ''replace'' None]) \<and>
   error_events (snd (handleTrigger shop lost_button fresh)) = []"
proof -
  have ok: "indicator_ok fresh"
    by (simp add: indicator_ok_def fresh_def)
  have a: "fst (request shop bare_button fresh)
             = Inl (Error ''could not find closest parent Shopify section'')"
    by (simp add: handler_defs page_defs)
  have b: "fst (request shop lost_button fresh)
             = Inr ([''a'' \<mapsto> fragment_a], [descriptor ''a'' ''#nowhere'' ''replace'' None])"
    by (simp add: handler_defs page_defs string_defs value_defs)
  have c: "fst (updateHistory shop (updateSection shop [''a'' \<mapsto> fragment_a]
               [descriptor ''a'' ''#nowhere'' ''replace'' None] (snd (request shop lost_button fresh)))) = None"
    by (simp add: handler_defs page_defs string_defs value_defs)
  have e: "error_events fresh = []" "inst_id fresh = ''r1''"
    by (simp_all add: error_events_def fresh_def)
  show ?thesis
    using ok a b c e
      C2_failures_and_the_error_event [where s = fresh and env = shop and t = bare_button
        and e = "Error ''could not find closest parent Shopify section''"]
      C2_failures_and_the_error_event [where s = fresh and env = shop and t = lost_button
        and resp = "[''a'' \<mapsto> fragment_a]"
        and ups = "[descriptor ''a'' ''#nowhere'' ''replace'' None]"]
    by simp
qed

text \<open>
  C3, amended. The history write and the title update happen exactly when the request has
  resolved, whether or not the patch then fails: if resolution, validation, the loading
  toggle or the request fails, the history and the title are left as they were; otherwise
  the activation writes what \<open>_updateHistory\<close> writes for the instance's configuration.
\<close>

theorem C3_history_follows_the_response:
  "(fst (request env t s) = Inl e \<longrightarrow>
      history_writes (snd (handleTrigger env t s)) = history_writes s) \<and>
   (fst (request env t s) = Inr (resp, ups) \<longrightarrow>
      history_writes (snd (handleTrigger env t s))
        = history_writes s @ history_writes (snd (updateHistory env (s\<lparr>trace := []\<rparr>))))"
proof (intro conjI impI)
  assume a: "fst (request env t s) = Inl e"
  obtain s3 where r: "request env t s = (Inl e, s3)"
    using a by (cases "request env t s") simp
  have "history_writes s3 = history_writes s"
    using request_history_writes [of env t s] r by simp
  then show "history_writes (snd (handleTrigger env t s)) = history_writes s"
    by (simp add: handleTrigger_request_failed [OF r] caught_history_writes)
next
  assume a: "fst (request env t s) = Inr (resp, ups)"
  obtain s3 where r: "request env t s = (Inr (resp, ups), s3)"
    using a by (cases "request env t s") simp
  let ?s4 = "updateSection env resp ups s3"
  obtain x s5 where u: "updateHistory env ?s4 = (x, s5)"
    by (cases "updateHistory env ?s4")
  have "frame s s3"
    using ext_frame [OF request_ext, of s env t] r by simp
  then have f: "frame s ?s4"
    using updateSection_frame by (rule frame_trans)
  have "history_writes ?s4 = history_writes s3"
    by (rule updateSection_history_writes)
  also have "\<dots> = history_writes s"
    using request_history_writes [of env t s] r by simp
  finally have w: "history_writes s5
      = history_writes s @ history_writes (snd (updateHistory env (s\<lparr>trace := []\<rparr>)))"
    using updateHistory_writes [OF f, of env] u by simp
  show "history_writes (snd (handleTrigger env t s))
        = history_writes s @ history_writes (snd (updateHistory env (s\<lparr>trace := []\<rparr>)))"
  proof (cases x)
    case None
    with w u show ?thesis
      by (simp add: handleTrigger_requested [OF r] cleanup_history_writes)
  next
    case (Some e')
    with w u show ?thesis
      by (simp add: handleTrigger_requested [OF r] caught_history_writes)
  qed
qed

text \<open>C3, amended, at the concrete page with \<open>update-url\<close> and \<open>update-title\<close> set.\<close>

theorem C3_witness:
  "fst (request shop bare_button titled) = Inl (Error ''could not find closest parent Shopify section'') \<and>
   history_writes (snd (handleTrigger shop bare_button titled)) = [] \<and>
   fst (request shop lost_button titled)
     = Inr ([''a'' \<mapsto> fragment_a], [descriptor ''a'' ''#nowhere'' ''replace'' None]) \<and>
   history_writes (snd (handleTrigger shop lost_button titled))
     = [ReplaceState ''/next'', SetTitle ''Next'']"
proof -
  have a: "fst (request shop bare_button titled)
             = Inl (Error ''could not find closest parent Shopify section'')"
    by (simp add: handler_defs page_defs)
  have b: "fst (request shop lost_button titled)
             = Inr ([''a'' \<mapsto> fragment_a], [descriptor ''a'' ''#nowhere'' ''replace'' None])"
    by (simp add: handler_defs page_defs string_defs value_defs)
  have c: "history_writes titled = []"
    "history_writes (snd (updateHistory shop (titled\<lparr>trace := []\<rparr>)))
       = [ReplaceState ''/next'', SetTitle ''Next'']"
    by (simp_all add: history_writes_def updateHistory_def emit_def page_defs)
  show ?thesis
    using a b c
      C3_history_follows_the_response [where env = shop and t = bare_button and s = titled
        and e = "Error ''could not find closest parent Shopify section''"]
      C3_history_follows_the_response [where env = shop and t = lost_button and s = titled
        and resp = "[''a'' \<mapsto> fragment_a]"
        and ups = "[descriptor ''a'' ''#nowhere'' ''replace'' None]"]
    by simp
qed

section \<open>Validation\<close>

text \<open>
  C4, as stated, fails: a descriptor whose section and destination are empty strings passes
  \<open>_isValidUpdates\<close>, and the activation goes on to issue its request.
\<close>

theorem C4_counterexample:
  "isValidUpdates [JObj [(''section'', JStr []), (''destination'', JStr [])]] \<and>
   requests (snd (handleTrigger shop (button 7 [''updates'' \<mapsto> updates_empty_strings] None) fresh))
     = [Fetch \<lparr>location = ''https://shop.example/'', searchParams = [(''sections'', [])], hash = []\<rparr>]"
  by (simp add: handler_defs page_defs string_defs value_defs trace_defs)

text \<open>
  C4, amended. The validation pass accepts exactly the batches whose entries are objects
  with a string \<open>section\<close> and a string \<open>destination\<close> (empty strings included), and a
  batch it rejects ends the activation with the error event and before any request.
\<close>

theorem C4_validation_by_type:
  "(isValidUpdates ups \<longleftrightarrow>
      (\<forall>u \<in> set ups. \<exists>fs a b. u = JObj fs \<and> map_of fs ''section'' = Some (JStr a) \<and>
                                map_of fs ''destination'' = Some (JStr b))) \<and>
   (fst (resolve env t s) = Inr (secs, ups) \<longrightarrow> \<not> isValidUpdates ups \<longrightarrow>
      requests (snd (handleTrigger env t s)) = requests s \<and>
      error_events (snd (handleTrigger env t s)) = error_events s @ [Event ev_error (inst_id s)])"
proof (intro conjI impI)
  show "isValidUpdates ups \<longleftrightarrow>
      (\<forall>u \<in> set ups. \<exists>fs a b. u = JObj fs \<and> map_of fs ''section'' = Some (JStr a) \<and>
                                map_of fs ''destination'' = Some (JStr b))"
    by (simp add: isValidUpdates_def list_all_iff isValidUpdate_iff)
next
  assume a: "fst (resolve env t s) = Inr (secs, ups)" and b: "\<not> isValidUpdates ups"
  obtain s1 where r: "resolve env t s = (Inr (secs, ups), s1)"
    using a by (cases "resolve env t s") simp
  have q: "request env t s = (Inl (Error ''Invalid `updates` structure''), s1)"
    using r b by (simp add: request_def)
  have "requests s1 = requests s"
    using resolve_requests [of env t s] r by simp
  then show "requests (snd (handleTrigger env t s)) = requests s"
    by (simp add: handleTrigger_request_failed [OF q] caught_requests)
  have "error_events s1 = error_events s" "inst_id s1 = inst_id s"
    using request_error_events [of env t s] request_inst_id [of env t s] q by simp_all
  then show "error_events (snd (handleTrigger env t s)) = error_events s @ [Event ev_error (inst_id s)]"
    by (simp add: handleTrigger_request_failed [OF q] caught_error_events)
qed

text \<open>C4, amended, at a batch whose section is a number.\<close>

theorem C4_witness:
  "fst (resolve shop (button 7 [''updates'' \<mapsto> updates_number] None) fresh)
     = Inr ([JNum 1], [JObj [(''section'', JNum 1), (''destination'', JStr ''#d'')]]) \<and>
   \<not> isValidUpdates [JObj [(''section'', JNum 1), (''destination'', JStr ''#d'')]] \<and>
   requests (snd (handleTrigger shop (button 7 [''updates'' \<mapsto> updates_number] None) fresh)) = [] \<and>
   error_events (snd (handleTrigger shop (button 7 [''updates'' \<mapsto> updates_number] None) fresh))
     = [Event ev_error ''r1'']"
proof -
  have a: "fst (resolve shop (button 7 [''updates'' \<mapsto> updates_number] None) fresh)
     = Inr ([JNum 1], [JObj [(''section'', JNum 1), (''destination'', JStr ''#d'')]])"
    by (simp add: handler_defs page_defs string_defs value_defs)
  have b: "\<not> isValidUpdates [JObj [(''section'', JNum 1), (''destination'', JStr ''#d'')]]"
    by (simp add: value_defs)
  have c: "requests fresh = []" "error_events fresh = []" "inst_id fresh = ''r1''"
    by (simp_all add: trace_defs fresh_def)
  show ?thesis
    using a b c
      C4_validation_by_type [where env = shop and t = "button 7 [''updates'' \<mapsto> updates_number] None"
        and s = fresh and secs = "[JNum 1]"
        and ups = "[JObj [(''section'', JNum 1), (''destination'', JStr ''#d'')]]"]
    by simp
qed

section \<open>Insertion modes\<close>

text \<open>
  C5. The aliases hold: \<open>after\<close> acts as \<open>append\<close>, \<open>before\<close> as \<open>prepend\<close>, and
  \<open>null\<close> as \<open>replace\<close>. An absent insertion mode should act as \<open>replace\<close> too, but
  a descriptor of the \<open>updates\<close> attribute that has no \<open>updateMode\<close> member reaches the
  \<open>switch\<close> as \<open>undefined\<close>, which matches no case: the destination keeps its earlier
  child and nothing is inserted, while the same descriptor with \<open>"updateMode": "replace"\<close>
  replaces the child by the fetched element.
\<close>

theorem C5_absent_mode_is_not_replace:
  "applyMode (JStr ''after'') cs el = applyMode (JStr ''append'') cs el \<and>
   applyMode (JStr ''before'') cs el = applyMode (JStr ''prepend'') cs el \<and>
   applyMode JNull cs el = applyMode (JStr ''replace'') cs el \<and>
   dom (snd (handleTrigger shop (button 7 [''updates'' \<mapsto> updates_plain] None) old_page)) 1
     = [Element ''old''] \<and>
   dom (snd (handleTrigger shop (button 7 [''updates'' \<mapsto> updates_replace] None) old_page)) 1
     = [Element fragment_a]"
proof -
  have "dom (snd (handleTrigger shop (button 7 [''updates'' \<mapsto> updates_plain] None) old_page)) 1
     = [Element ''old'']"
    by (simp add: handler_defs page_defs string_defs value_defs)
  moreover have "dom (snd (handleTrigger shop (button 7 [''updates'' \<mapsto> updates_replace] None) old_page)) 1
     = [Element fragment_a]"
    by (simp add: handler_defs page_defs string_defs value_defs)
  ultimately show ?thesis
    by (simp add: applyMode_def)
qed

text \<open>
  C6. \<open>append\<close> keeps the earlier children and adds the extracted element last,
  \<open>prepend\<close> adds it first, \<open>replace\<close> and \<open>null\<close> leave it as the only child.
  With the mode unset the same should happen as with \<open>replace\<close>; for a descriptor without
  an \<open>updateMode\<close> member, though, the \<open>switch\<close> does nothing: the earlier children
  \<open>p\<close>, \<open>q\<close> stay and the element is not inserted.
\<close>

theorem C6_unset_mode_keeps_children:
  "applyMode (JStr ''append'') cs (Some e) = (None, cs @ [Element e]) \<and>
   applyMode (JStr ''prepend'') cs (Some e) = (None, Element e # cs) \<and>
   applyMode (JStr ''replace'') cs (Some e) = (None, [Element e]) \<and>
   applyMode JNull cs (Some e) = (None, [Element e]) \<and>
   js_prop (JObj [(''section'', JStr ''a''), (''destination'', JStr ''#d'')]) ''updateMode'' = JUndefined \<and>
   applyMode JUndefined [Element ''p'', Element ''q''] (Some ''new'')
     = (None, [Element ''p'', Element ''q''])"
  by (simp add: applyMode_def appendChild_def prepend_def value_defs)

section \<open>The request URL\<close>

lemma params_set_others:
  "filter (\<lambda>p. fst p \<noteq> k) (params_set k v ps) = filter (\<lambda>p. fst p \<noteq> k) ps"
  by (induction ps) auto

lemma params_set_entry:
  "filter (\<lambda>p. fst p = k) (params_set k v ps) = [(k, v)]"
  by (induction ps) (auto simp: filter_empty_conv)

lemma buildUrl_parsed:
  "URL_new env (chosen_renderUrl env s t) = Some b \<Longrightarrow>
   buildUrl env s (SArr xs) t
     = Inr (Some (b\<lparr>searchParams := params_set ''sections'' (trim (join_comma xs)) (searchParams b)\<rparr>))"
  by (simp add: buildUrl_def)

lemma fetchRace_requests:
  "buildUrl env s (SArr xs) (Some t) = Inr (Some r) \<Longrightarrow>
   requests (snd (fetchRace env (map JStr xs) t s)) = requests s @ [Fetch r]"
proof -
  assume a: "buildUrl env s (SArr xs) (Some t) = Inr (Some r)"
  have m: "map (str_of \<circ> JStr) xs = xs"
    by (induction xs) simp_all
  show ?thesis
    by (cases "fetch_race env r") (simp_all add: fetchRace_def a m requests_def emit_def)
qed

text \<open>
  C8. The base of the request URL is the trigger's \<open>render-url\<close> attribute, else the
  instance's, else the page path (an empty attribute counts as absent, as \<open>||\<close> has it).
  When the \<open>URL\<close> constructor accepts that base, the URL that is built and requested
  keeps the base's location and fragment, has one \<open>sections\<close> parameter, whose value is
  the comma-joined section list, trimmed, and keeps every other query parameter of the base
  in place.
\<close>

theorem C8_request_url:
  "(attrs t ''render-url'' = Some u \<and> u \<noteq> [] \<longrightarrow> chosen_renderUrl env s (Some t) = u) \<and>
   (attrs t ''render-url'' \<in> {None, Some []} \<and> renderUrl s = Some u \<and> u \<noteq> [] \<longrightarrow>
      chosen_renderUrl env s (Some t) = u) \<and>
   (attrs t ''render-url'' \<in> {None, Some []} \<and> renderUrl s \<in> {None, Some []} \<longrightarrow>
      chosen_renderUrl env s (Some t) = pathname env) \<and>
   (URL_new env (chosen_renderUrl env s (Some t)) = Some b \<longrightarrow>
      (\<exists>r. buildUrl env s (SArr xs) (Some t) = Inr (Some r) \<and>
           location r = location b \<and> hash r = hash b \<and>
           filter (\<lambda>p. fst p = ''sections'') (searchParams r) = [(''sections'', trim (join_comma xs))] \<and>
           filter (\<lambda>p. fst p \<noteq> ''sections'') (searchParams r)
             = filter (\<lambda>p. fst p \<noteq> ''sections'') (searchParams b) \<and>
           requests (snd (fetchRace env (map JStr xs) t s)) = requests s @ [Fetch r]))"
proof (intro conjI impI)
  assume "attrs t ''render-url'' = Some u \<and> u \<noteq> []"
  then show "chosen_renderUrl env s (Some t) = u"
    by (simp add: chosen_renderUrl_def attr_or_null_def)
next
  assume "attrs t ''render-url'' \<in> {None, Some []} \<and> renderUrl s = Some u \<and> u \<noteq> []"
  then show "chosen_renderUrl env s (Some t) = u"
    by (auto simp: chosen_renderUrl_def attr_or_null_def)
next
  assume "attrs t ''render-url'' \<in> {None, Some []} \<and> renderUrl s \<in> {None, Some []}"
  then show "chosen_renderUrl env s (Some t) = pathname env"
    by (auto simp: chosen_renderUrl_def attr_or_null_def)
next
  assume p: "URL_new env (chosen_renderUrl env s (Some t)) = Some b"
  let ?r = "b\<lparr>searchParams := params_set ''sections'' (trim (join_comma xs)) (searchParams b)\<rparr>"
  have a: "buildUrl env s (SArr xs) (Some t) = Inr (Some ?r)"
    using p by (rule buildUrl_parsed)
  have "location ?r = location b \<and> hash ?r = hash b \<and>
        filter (\<lambda>p. fst p = ''sections'') (searchParams ?r) = [(''sections'', trim (join_comma xs))] \<and>
        filter (\<lambda>p. fst p \<noteq> ''sections'') (searchParams ?r)
          = filter (\<lambda>p. fst p \<noteq> ''sections'') (searchParams b)"
    by (simp add: params_set_others params_set_entry)
  with a fetchRace_requests [OF a]
  show "\<exists>r. buildUrl env s (SArr xs) (Some t) = Inr (Some r) \<and>
           location r = location b \<and> hash r = hash b \<and>
           filter (\<lambda>p. fst p = ''sections'') (searchParams r) = [(''sections'', trim (join_comma xs))] \<and>
           filter (\<lambda>p. fst p \<noteq> ''sections'') (searchParams r)
             = filter (\<lambda>p. fst p \<noteq> ''sections'') (searchParams b) \<and>
           requests (snd (fetchRace env (map JStr xs) t s)) = requests s @ [Fetch r]"
    by blast
qed

text \<open>C8 at the concrete page: a trigger-level URL with two query parameters, an instance-level one, and the page path.\<close>

theorem C8_witness:
  "chosen_renderUrl shop fresh (Some (button 7 [''render-url'' \<mapsto> ''/products/x?variant=1&sections=old''] None))
     = ''/products/x?variant=1&sections=old'' \<and>
   chosen_renderUrl shop (fresh\<lparr>renderUrl := Some ''/collections/all''\<rparr>) (Some bare_button)
     = ''/collections/all'' \<and>
   chosen_renderUrl shop fresh (Some bare_button) = ''/'' \<and>
   buildUrl shop fresh (SArr [''a'', ''b '']) (Some (button 7 [''render-url'' \<mapsto> ''/products/x?variant=1&sections=old''] None))
     = Inr (Some \<lparr>location = ''https://shop.example/products/x'',
                   searchParams = [(''variant'', ''1''), (''sections'', ''a,b'')], hash = []\<rparr>)"
proof -
  have a: "attrs (button 7 [''render-url'' \<mapsto> ''/products/x?variant=1&sections=old''] None) ''render-url''
             = Some ''/products/x?variant=1&sections=old''"
    "attrs bare_button ''render-url'' \<in> {None, Some []}"
    "renderUrl fresh \<in> {None, Some []}"
    "pathname shop = ''/''"
    by (simp_all add: page_defs)
  have b: "URL_new shop ''/products/x?variant=1&sections=old''
             = Some \<lparr>location = ''https://shop.example/products/x'',
                      searchParams = [(''variant'', ''1''), (''sections'', ''old'')], hash = []\<rparr>"
    by (simp add: page_defs)
  have c: "buildUrl shop fresh (SArr [''a'', ''b '']) (Some (button 7 [''render-url'' \<mapsto> ''/products/x?variant=1&sections=old''] None))
     = Inr (Some \<lparr>location = ''https://shop.example/products/x'',
                   searchParams = [(''variant'', ''1''), (''sections'', ''a,b'')], hash = []\<rparr>)"
    by (simp add: buildUrl_def chosen_renderUrl_def attr_or_null_def page_defs string_defs)
  show ?thesis
    using a b c
      C8_request_url [where env = shop and s = fresh
        and t = "button 7 [''render-url'' \<mapsto> ''/products/x?variant=1&sections=old''] None"
        and u = "''/products/x?variant=1&sections=old''" and xs = "[''a'', ''b '']"
        and b = "\<lparr>location = ''https://shop.example/products/x'',
                      searchParams = [(''variant'', ''1''), (''sections'', ''old'')], hash = []\<rparr>"]
      C8_request_url [where env = shop and s = "fresh\<lparr>renderUrl := Some ''/collections/all''\<rparr>"
        and t = bare_button and u = "''/collections/all''"]
      C8_request_url [where env = shop and s = fresh and t = bare_button]
    by simp
qed

section \<open>The scoped flag\<close>

lemma handleTrigger_frame: "frame s (snd (handleTrigger env t s))"
proof -
  obtain r s1 where r: "tryBlock env t s = (r, s1)"
    by (cases "tryBlock env t s")
  have f: "frame s s1"
    using tryBlock_frame [of s env t] r by simp
  have g: "frame s1 (event ev_error (emit ConsoleError s1))"
    by (simp add: frame_def event_def emit_def)
  have h: "\<And>x. frame x (snd (toggleLoading x))"
    by (rule ext_frame [OF toggleLoading_ext])
  show ?thesis
    using r by (cases r) (auto simp: handleTrigger_def intro: frame_trans [OF f] frame_trans [OF g] h)
qed

lemma handleTrigger_scoped: "\<not> scoped s \<Longrightarrow> \<not> scoped (snd (handleTrigger env t s))"
  using handleTrigger_frame [of s env t] by (auto simp: frame_def)

lemma scoped_emit: "scoped (emit e s) = scoped s"
  by (simp add: emit_def)

lemma scoped_event: "scoped (event n s) = scoped s"
  by (simp add: event_def emit_def)

lemma fold_emit_scoped: "scoped (fold (\<lambda>x st. emit (f x) st) xs s) = scoped s"
  by (induction xs arbitrary: s) (simp_all add: emit_def)

lemma forEach_trigger_scoped: "scoped (snd (forEach_trigger ts s)) = scoped s"
  by (induction ts arbitrary: s) (simp_all add: Let_def emit_def)

lemma connectedCallback_scoped: "scoped (snd (connectedCallback env s)) = scoped s"
proof -
  let ?s1 = "findTriggers env s"
  have a: "scoped ?s1 = scoped s"
    by (simp add: findTriggers_def)
  obtain x s2 where x: "addEventListeners ?s1 = (x, s2)"
    by (cases "addEventListeners ?s1")
  have "scoped (snd (addEventListeners ?s1)) = scoped ?s1"
    by (simp add: addEventListeners_def forEach_trigger_scoped split: option.splits)
  then have b: "scoped s2 = scoped s"
    using x a by simp
  obtain y s3 where y: "findLoadingElement env s2 = (y, s3)"
    by (cases "findLoadingElement env s2")
  have "scoped (snd (findLoadingElement env s2)) = scoped s2"
    by (simp add: findLoadingElement_def Let_def scoped_emit split: option.splits sum.splits)
  then have c: "scoped s3 = scoped s2"
    using y by simp
  have d: "scoped (observeIntersections (event ev_init s3)) = scoped s3"
    by (simp add: observeIntersections_def fold_emit_scoped scoped_event split: option.splits)
  show ?thesis
    using a b c d x y
    by (cases x; cases y) (simp_all add: connectedCallback_def Let_def scoped_emit)
qed

lemma disconnectedCallback_scoped: "scoped (disconnectedCallback s) = scoped s"
  by (simp add: disconnectedCallback_def Let_def fold_emit_scoped clearTimeout_def scoped_event
      scoped_emit split: option.splits)

lemma fire_due_fold_scoped:
  "\<not> scoped s \<Longrightarrow>
   \<not> scoped (fold (\<lambda>tm st. snd (handleTrigger env (snd (snd tm))
                 (emit (TimerFired (fst (snd tm)) (tid (snd (snd tm)))) st))) due s)"
proof (induction due arbitrary: s)
  case Nil
  then show ?case by simp
next
  case (Cons tm due)
  have "\<not> scoped (emit (TimerFired (fst (snd tm)) (tid (snd (snd tm)))) s)"
    using Cons.prems by (simp add: emit_def)
  then have "\<not> scoped (snd (handleTrigger env (snd (snd tm))
                 (emit (TimerFired (fst (snd tm)) (tid (snd (snd tm)))) s)))"
    by (rule handleTrigger_scoped)
  then show ?case
    using Cons.IH by simp
qed

lemma fire_due_scoped: "\<not> scoped s \<Longrightarrow> \<not> scoped (fire_due env now s)"
  unfolding fire_due_def Let_def by (rule fire_due_fold_scoped) simp

lemma boundListener_scoped: "scoped (boundListener t now s) = scoped s"
  by (simp add: boundListener_def debounce_def clearTimeout_def setTimeout_def emit_def)

lemma attributeChangedCallback_scoped: "scoped (attributeChangedCallback n ov nv s) = scoped s"
  by (simp add: attributeChangedCallback_def)

lemma intersected_scoped: "\<not> scoped s \<Longrightarrow> \<not> scoped (intersected env t s)"
  by (simp add: intersected_def Let_def scoped_emit handleTrigger_scoped)

lemma step_scoped: "\<not> scoped s \<Longrightarrow> \<not> scoped (step env now c s)"
proof -
  assume "\<not> scoped s"
  then have a: "\<not> scoped (fire_due env now s)"
    by (rule fire_due_scoped)
  show ?thesis
  proof (cases c)
    case Connected
    with a show ?thesis by (simp add: step_def connectedCallback_scoped)
  next
    case Disconnected
    with a show ?thesis by (simp add: step_def disconnectedCallback_scoped)
  next
    case (AttributeChanged n ov nv)
    with a show ?thesis by (simp add: step_def attributeChangedCallback_scoped)
  next
    case (ListenerEvent t)
    with a show ?thesis by (simp add: step_def boundListener_scoped)
  next
    case (Intersected t)
    with a show ?thesis by (simp add: step_def intersected_scoped)
  next
    case (Activated t)
    with a show ?thesis by (simp add: step_def handleTrigger_scoped)
  next
    case Idle
    with a show ?thesis by (simp add: step_def)
  qed
qed

lemma run_scoped: "\<not> scoped s \<Longrightarrow> \<not> scoped (run cs s)"
proof (induction cs arbitrary: s)
  case Nil
  then show ?case by simp
next
  case (Cons a cs)
  obtain env now c where a: "a = (env, now, c)"
    by (cases a)
  have "\<not> scoped (step env now c s)"
    using Cons.prems by (rule step_scoped)
  then have "\<not> scoped (run cs (step env now c s))"
    by (rule Cons.IH)
  then show ?case
    by (simp add: a)
qed

lemma resolve_unscopes:
  assumes "snd (fst (getUpdatesArray env t s)) = []"
    and "attr_or_null t ''section'' = None" and "attr_or_null t ''destination'' = None"
    and "closest t = Some (Some i)"
  shows "\<not> scoped (snd (resolve env t s))"
proof -
  obtain secs s1 where g: "getUpdatesArray env t s = ((secs, []), s1)"
    using assms(1) by (cases "getUpdatesArray env t s") auto
  have c: "getClosestSection t = Inr (Some (trim (remove_first ''shopify-section-'' i), ''#'' @ i))"
    using assms(4) by (simp add: getClosestSection_def)
  show ?thesis
    by (simp add: resolve_def g c assms(2,3) Let_def)
qed

text \<open>
  C9, as stated, fails: a trigger without \<open>section\<close> and \<open>destination\<close> whose closest
  element of class \<open>shopify-section\<close> has no id makes \<open>_getClosestSection\<close> throw
  before the flag is written; the activation ends with the error event and the instance is
  still scoped.
\<close>

theorem C9_counterexample:
  "snd (fst (getUpdatesArray shop idless_button fresh)) = [] \<and>
   attr_or_null idless_button ''section'' = None \<and>
   attr_or_null idless_button ''destination'' = None \<and>
   closest idless_button = Some None \<and>
   scoped (snd (handleTrigger shop idless_button fresh)) \<and>
   error_events (snd (handleTrigger shop idless_button fresh)) = [Event ev_error ''r1'']"
  by (simp add: handler_defs page_defs trace_defs)

text \<open>
  C9, amended. A trigger that resolves to a single action, has neither a \<open>section\<close> nor a
  \<open>destination\<close> attribute and lies in an element of class \<open>shopify-section\<close> that has
  an id (\<open>i\<close>) switches the instance's scoped flag off when it is handled, and nothing
  that happens to the instance afterwards switches it on again: after any later calls,
  whatever their triggers carry, every element lookup searches the whole document.
\<close>

theorem C9_scoped_flag_stays_off:
  "snd (fst (getUpdatesArray env t s)) = [] \<Longrightarrow>
   attr_or_null t ''section'' = None \<Longrightarrow> attr_or_null t ''destination'' = None \<Longrightarrow>
   closest t = Some (Some i) \<Longrightarrow>
   \<not> scoped (snd (handleTrigger env t s)) \<and>
   \<not> scoped (run cs (snd (handleTrigger env t s))) \<and>
   findElement env' (run cs (snd (handleTrigger env t s))) selector False
     = document_querySelector env' (dom (run cs (snd (handleTrigger env t s)))) selector"
proof -
  assume h: "snd (fst (getUpdatesArray env t s)) = []"
    "attr_or_null t ''section'' = None" "attr_or_null t ''destination'' = None"
    "closest t = Some (Some i)"
  have r: "\<not> scoped (snd (resolve env t s))"
    using h by (rule resolve_unscopes)
  obtain x s1 where x: "resolve env t s = (x, s1)"
    by (cases "resolve env t s")
  have s1: "\<not> scoped s1"
    using r x by simp
  have q: "\<not> scoped (snd (request env t s))"
  proof (cases x)
    case (Inl e)
    with x s1 show ?thesis by (simp add: request_def)
  next
    case (Inr su)
    obtain secs ups where su: "su = (secs, ups)" by (cases su)
    obtain y s2 where y: "toggleLoading s1 = (y, s2)"
      by (cases "toggleLoading s1")
    have s2: "\<not> scoped s2"
      using ext_frame [OF toggleLoading_ext, of s1] y s1 by (simp add: frame_def)
    have s3: "\<not> scoped (snd (fetchRace env secs t s2))"
      using ext_frame [OF fetchRace_ext, of s2 env secs t] s2 by (simp add: frame_def)
    show ?thesis
      using x Inr su y s1 s2 s3
      by (cases y; cases "fetchRace env secs t s2"; cases "fst (fetchRace env secs t s2)")
         (simp_all add: request_def)
  qed
  obtain z s3 where z: "request env t s = (z, s3)"
    by (cases "request env t s")
  have s3: "\<not> scoped s3"
    using q z by simp
  have t: "\<not> scoped (snd (tryBlock env t s))"
  proof (cases z)
    case (Inl e)
    with z s3 show ?thesis by (simp add: tryBlock_def)
  next
    case (Inr ru)
    obtain resp ups where ru: "ru = (resp, ups)" by (cases ru)
    have "\<not> scoped (updateSection env resp ups s3)"
      using updateSection_frame [of s3 env resp ups] s3 by (simp add: frame_def)
    then have "\<not> scoped (snd (updateHistory env (updateSection env resp ups s3)))"
      using ext_frame [OF updateHistory_ext, of "updateSection env resp ups s3" env]
      by (simp add: frame_def)
    with z Inr ru show ?thesis by (simp add: tryBlock_def)
  qed
  obtain w s5 where w: "tryBlock env t s = (w, s5)"
    by (cases "tryBlock env t s")
  have s5: "\<not> scoped s5"
    using t w by simp
  have "\<not> scoped (event ev_error (emit ConsoleError s5))"
    using s5 by (simp add: scoped_event scoped_emit)
  then have a: "\<not> scoped (snd (handleTrigger env t s))"
    using w s5 ext_frame [OF toggleLoading_ext, of s5]
      ext_frame [OF toggleLoading_ext, of "event ev_error (emit ConsoleError s5)"]
    by (cases w) (simp_all add: handleTrigger_def frame_def)
  then have b: "\<not> scoped (run cs (snd (handleTrigger env t s)))"
    by (rule run_scoped)
  show ?thesis
    using a b by (simp add: findElement_def)
qed

text \<open>C9, amended, at the concrete page: after such an activation, a later one with explicit attributes still finds the element outside the component.\<close>

theorem C9_witness:
  "snd (fst (getUpdatesArray shop section_button fresh)) = [] \<and>
   attr_or_null section_button ''section'' = None \<and>
   attr_or_null section_button ''destination'' = None \<and>
   closest section_button = Some (Some ''shopify-section-a'') \<and>
   scoped fresh \<and>
   \<not> scoped (snd (handleTrigger shop section_button fresh)) \<and>
   \<not> scoped (run [(shop, 10, Activated plain_button)] (snd (handleTrigger shop section_button fresh))) \<and>
   findElement shop (run [(shop, 10, Activated plain_button)] (snd (handleTrigger shop section_button fresh)))
       ''#outside'' False
     = Inr (Some 2)"
proof -
  have h: "snd (fst (getUpdatesArray shop section_button fresh)) = []"
    "attr_or_null section_button ''section'' = None"
    "attr_or_null section_button ''destination'' = None"
    "closest section_button = Some (Some ''shopify-section-a'')"
    by (simp_all add: getUpdatesArray_def attr_or_null_def section_button_def button_def)
  have d: "\<And>x. document_querySelector shop x ''#outside'' = Inr (Some 2)"
    by (simp add: shop_def)
  have f: "scoped fresh"
    by (simp add: fresh_def)
  show ?thesis
    using h d f
      C9_scoped_flag_stays_off [OF h, where env' = shop and cs = "[(shop, 10, Activated plain_button)]"
        and selector = "''#outside''"]
    by simp
qed

section \<open>The debounce window\<close>

lemma handleTrigger_ext: "ext activity s (snd (handleTrigger env t s))"
proof -
  obtain r s1 where r: "tryBlock env t s = (r, s1)"
    by (cases "tryBlock env t s")
  have "ext (\<lambda>e. before_patch e \<or> is_history_write e) s s1"
    using tryBlock_ext [of s env t] r by simp
  then have a: "ext activity s s1"
    by (rule ext_mono) (auto simp: activity_def)
  have t: "\<And>x. ext activity x (snd (toggleLoading x))"
    by (rule ext_mono [OF toggleLoading_ext]) (simp add: activity_def before_patch_def)
  have "ext activity s (emit ConsoleError s1)"
    by (rule ext_then_emit [OF a]) (simp add: activity_def before_patch_def)
  then have b: "ext activity s (event ev_error (emit ConsoleError s1))"
    unfolding event_def by (rule ext_then_emit) (simp add: activity_def)
  show ?thesis
    using r by (cases r) (auto simp: handleTrigger_def intro: ext_trans [OF a t] ext_trans [OF b t])
qed

lemma not_timer_fired: "activity e \<Longrightarrow> \<not> is_timer_fired e"
  by (cases e) (auto simp: activity_def before_patch_def toggles_def)

lemma handleTrigger_fired: "fired (snd (handleTrigger env t s)) = fired s"
  unfolding fired_def by (rule ext_filter [OF handleTrigger_ext]) (rule not_timer_fired)

lemma handleTrigger_timers: "timers (snd (handleTrigger env t s)) = timers s"
  using ext_frame [OF handleTrigger_ext, of s env t] by (simp add: frame_def)

lemma toggleLoading_requests: "requests (snd (toggleLoading s)) = requests s"
  unfolding requests_def by (rule ext_filter [OF toggleLoading_ext]) (rule not_request)

lemma updateSection_requests: "requests (updateSection env r us s) = requests s"
  unfolding requests_def by (rule ext_filter [OF updateSection_ext]) (rule not_request)

lemma updateHistory_requests: "requests (snd (updateHistory env s)) = requests s"
  unfolding requests_def by (rule ext_filter [OF updateHistory_ext]) (rule not_request)

lemma fetchRace_requests_url:
  "requests (snd (fetchRace env secs t s))
     = requests s @ (case buildUrl env s (SArr (map str_of secs)) (Some t) of
                       Inr (Some u) \<Rightarrow> [Fetch u] | other \<Rightarrow> [])"
  by (simp add: fetchRace_def requests_def emit_def Let_def
      split: sum.splits option.splits race.splits)

lemma request_requests:
  "requests (snd (request env t s))
     = requests s @ (case requested_url env t s of None \<Rightarrow> [] | Some u \<Rightarrow> [Fetch u])"
proof -
  obtain x s1 where x: "resolve env t s = (x, s1)"
    by (cases "resolve env t s")
  have a: "requests s1 = requests s"
    using resolve_requests [of env t s] x by simp
  show ?thesis
  proof (cases x)
    case (Inl e)
    with x a show ?thesis by (simp add: request_def requested_url_def)
  next
    case (Inr su)
    obtain secs ups where su: "su = (secs, ups)" by (cases su)
    show ?thesis
    proof (cases "isValidUpdates ups")
      case False
      with x Inr su a show ?thesis by (simp add: request_def requested_url_def)
    next
      case True
      obtain y s2 where y: "toggleLoading s1 = (y, s2)"
        by (cases "toggleLoading s1")
      have b: "requests s2 = requests s"
        using toggleLoading_requests [of s1] y a by simp
      show ?thesis
      proof (cases y)
        case (Some e)
        with x Inr su True y b show ?thesis by (simp add: request_def requested_url_def)
      next
        case None
        obtain z s3 where z: "fetchRace env secs t s2 = (z, s3)"
          by (cases "fetchRace env secs t s2")
        have "requests s3 = requests s @ (case buildUrl env s2 (SArr (map str_of secs)) (Some t) of
                       Inr (Some u) \<Rightarrow> [Fetch u] | other \<Rightarrow> [])"
          using fetchRace_requests_url [of env secs t s2] z b by simp
        with x Inr su True y None z show ?thesis
          by (cases z) (auto simp: request_def requested_url_def split: sum.splits option.splits)
      qed
    qed
  qed
qed

lemma handleTrigger_requests:
  "requests (snd (handleTrigger env t s))
     = requests s @ (case requested_url env t s of None \<Rightarrow> [] | Some u \<Rightarrow> [Fetch u])"
proof -
  obtain r s3 where r: "request env t s = (r, s3)"
    by (cases "request env t s")
  have a: "requests s3 = requests s @ (case requested_url env t s of None \<Rightarrow> [] | Some u \<Rightarrow> [Fetch u])"
    using request_requests [of env t s] r by simp
  show ?thesis
  proof (cases r)
    case (Inl e)
    with r a show ?thesis
      by (simp add: handleTrigger_request_failed caught_requests)
  next
    case (Inr ru)
    obtain resp ups where ru: "ru = (resp, ups)" by (cases ru)
    have q: "request env t s = (Inr (resp, ups), s3)"
      using r Inr ru by simp
    obtain x s5 where x: "updateHistory env (updateSection env resp ups s3) = (x, s5)"
      by (cases "updateHistory env (updateSection env resp ups s3)")
    have "requests s5 = requests s3"
      using updateHistory_requests [of env "updateSection env resp ups s3"] x
      by (simp add: updateSection_requests)
    then have b: "requests s5
        = requests s @ (case requested_url env t s of None \<Rightarrow> [] | Some u \<Rightarrow> [Fetch u])"
      using a by simp
    show ?thesis
    proof (cases x)
      case None
      with b x show ?thesis
        by (simp add: handleTrigger_requested [OF q] toggleLoading_requests)
    next
      case (Some e)
      with b x show ?thesis
        by (simp add: handleTrigger_requested [OF q] caught_requests)
    qed
  qed
qed


lemma run_append: "run (cs @ ds) s = run ds (run cs s)"
proof (induction cs arbitrary: s)
  case Nil
  show ?case by simp
next
  case (Cons a cs)
  obtain env now c where a: "a = (env, now, c)" by (cases a)
  show ?case by (simp add: a Cons.IH)
qed

lemma burst_snoc:
  "burst w (es @ [e]) \<longleftrightarrow>
     burst w es \<and> (es = [] \<or> (fst (last es) \<le> fst e \<and> fst e < fst (last es) + w))"
proof (induction w es rule: burst.induct)
  case (1 w)
  show ?case by simp
next
  case (2 w e')
  show ?case by simp
next
  case (3 w a b es)
  then show ?case by auto
qed

lemma fire_due_idle: "list_all (\<lambda>tm. now < fst (snd tm)) (timers s) \<Longrightarrow> fire_due env now s = s"
proof -
  assume a: "list_all (\<lambda>tm. now < fst (snd tm)) (timers s)"
  have "filter (\<lambda>tm. fst (snd tm) \<le> now) (timers s) = []"
    using a by (auto simp: filter_empty_conv list_all_iff)
  moreover have "filter (\<lambda>tm. \<not> fst (snd tm) \<le> now) (timers s) = timers s"
    using a by (auto simp: filter_id_conv list_all_iff)
  ultimately show ?thesis
    by (simp add: fire_due_def)
qed

lemma listener_first:
  "timers s = [] \<Longrightarrow> step env now (ListenerEvent t) s = gated s [(now, t)]"
  by (simp add: step_def fire_due_idle boundListener_def debounce_def clearTimeout_def
      setTimeout_def emit_def gated_def)

lemma listener_next:
  assumes "es \<noteq> []" and "fst (last es) \<le> now" and "now < fst (last es) + debounceTime s"
  shows "step env now (ListenerEvent t) (gated s es) = gated s (es @ [(now, t)])"
proof -
  have "list_all (\<lambda>tm. now < fst (snd tm)) (timers (gated s es))"
    using assms by (simp add: gated_def)
  then have "fire_due env now (gated s es) = gated s es"
    by (rule fire_due_idle)
  then show ?thesis
    using assms(1)
    by (simp add: step_def boundListener_def debounce_def clearTimeout_def
        setTimeout_def emit_def gated_def)
qed

lemma burst_gated:
  "timers s = [] \<Longrightarrow> es \<noteq> [] \<Longrightarrow> burst (debounceTime s) es \<Longrightarrow>
   run (map (\<lambda>e. (env, fst e, ListenerEvent (snd e))) es) s = gated s es"
proof (induction es rule: rev_induct)
  case Nil
  then show ?case by simp
next
  case (snoc e es)
  show ?case
  proof (cases "es = []")
    case True
    then show ?thesis
      using snoc.prems(1) listener_first [of s env "fst e" "snd e"] by simp
  next
    case False
    have b: "burst (debounceTime s) es" "fst (last es) \<le> fst e"
      "fst e < fst (last es) + debounceTime s"
      using snoc.prems(3) False by (simp_all add: burst_snoc)
    have "run (map (\<lambda>e. (env, fst e, ListenerEvent (snd e))) es) s = gated s es"
      using snoc.IH snoc.prems(1) False b(1) by simp
    then show ?thesis
      using listener_next [OF False b(2,3), of env "snd e"] by (simp add: run_append)
  qed
qed

lemma settle_gated:
  assumes "es \<noteq> []" and "fst (last es) + debounceTime s \<le> T"
  shows "step env T Idle (gated s es)
         = snd (handleTrigger env (snd (last es))
             (emit (TimerFired (fst (last es) + debounceTime s) (tid (snd (last es))))
                ((gated s es)\<lparr>timers := []\<rparr>)))"
  using assms by (simp add: step_def fire_due_def gated_def)

text \<open>
  C7, as stated, fails: a burst of two listener events within the debounce interval whose
  last trigger has no attributes and no enclosing section collapses to one activation, which
  throws while resolving, and no request is issued at all.
\<close>

theorem C7_counterexample:
  "timers fresh = [] \<and>
   burst (debounceTime fresh) [(0, plain_button), (100, bare_button)] \<and>
   100 + debounceTime fresh \<le> (600::nat) \<and>
   requests (step shop 600 Idle
      (run [(shop, 0, ListenerEvent plain_button), (shop, 100, ListenerEvent bare_button)] fresh)) = []"
  by (simp add: step_def fire_due_def boundListener_def debounce_def clearTimeout_def
      setTimeout_def handler_defs page_defs trace_defs)

text \<open>
  C7, amended. Listener events of one instance (of the same trigger or of different ones)
  that start with no timer pending and follow each other within the debounce interval leave
  one pending timer, that of the last event. Once its time has come, \<open>debounceTime\<close> after
  the last event, it fires, alone, and the whole burst amounts to one activation of the
  last event's trigger: one timer firing, and the one request of that activation when it
  gets as far as its request, none when it fails before.
\<close>

theorem C7_burst_is_one_activation:
  "timers s = [] \<Longrightarrow> es \<noteq> [] \<Longrightarrow> burst (debounceTime s) es \<Longrightarrow>
   fst (last es) + debounceTime s \<le> T \<Longrightarrow>
   (let due = fst (last es) + debounceTime s;
        pre = emit (TimerFired due (tid (snd (last es)))) ((gated s es)\<lparr>timers := []\<rparr>);
        settled = step env' T Idle (run (map (\<lambda>e. (env, fst e, ListenerEvent (snd e))) es) s)
    in settled = snd (handleTrigger env' (snd (last es)) pre) \<and>
       fired settled = fired s @ [TimerFired due (tid (snd (last es)))] \<and>
       requests settled
         = requests s @ (case requested_url env' (snd (last es)) pre of
                           None \<Rightarrow> [] | Some u \<Rightarrow> [Fetch u]) \<and>
       timers settled = [])"
proof -
  assume h: "timers s = []" "es \<noteq> []" "burst (debounceTime s) es"
    "fst (last es) + debounceTime s \<le> T"
  let ?due = "fst (last es) + debounceTime s"
  let ?pre = "emit (TimerFired ?due (tid (snd (last es)))) ((gated s es)\<lparr>timers := []\<rparr>)"
  let ?settled = "step env' T Idle (run (map (\<lambda>e. (env, fst e, ListenerEvent (snd e))) es) s)"
  have "run (map (\<lambda>e. (env, fst e, ListenerEvent (snd e))) es) s = gated s es"
    using h(1,2,3) by (rule burst_gated)
  then have a: "?settled = snd (handleTrigger env' (snd (last es)) ?pre)"
    using settle_gated [OF h(2,4), of env'] by simp
  have b: "fired ?pre = fired s @ [TimerFired ?due (tid (snd (last es)))]"
    "requests ?pre = requests s" "timers ?pre = []"
    by (simp_all add: fired_def requests_def emit_def gated_def filter_empty_conv)
  have "fired ?settled = fired s @ [TimerFired ?due (tid (snd (last es)))]"
    using a b(1) by (simp add: handleTrigger_fired)
  moreover have "requests ?settled
         = requests s @ (case requested_url env' (snd (last es)) ?pre of
                           None \<Rightarrow> [] | Some u \<Rightarrow> [Fetch u])"
    using a b(2) by (simp add: handleTrigger_requests)
  moreover have "timers ?settled = []"
    using a b(3) by (simp add: handleTrigger_timers)
  ultimately show ?thesis
    using a by (simp add: Let_def)
qed

text \<open>C7, amended, at the concrete page: three events of three triggers at 0, 100 and 250 ms, an interval of 300 ms.\<close>

theorem C7_witness:
  "timers fresh = [] \<and>
   burst (debounceTime fresh) [(0, bare_button), (100, section_button), (250, plain_button)] \<and>
   250 + debounceTime fresh \<le> (600::nat) \<and>
   fired (step shop 600 Idle (run [(shop, 0, ListenerEvent bare_button),
       (shop, 100, ListenerEvent section_button), (shop, 250, ListenerEvent plain_button)] fresh))
     = [TimerFired 550 7] \<and>
   requests (step shop 600 Idle (run [(shop, 0, ListenerEvent bare_button),
       (shop, 100, ListenerEvent section_button), (shop, 250, ListenerEvent plain_button)] fresh))
     = [Fetch \<lparr>location = ''https://shop.example/'', searchParams = [(''sections'', ''a'')], hash = []\<rparr>]"
proof -
  have h: "timers fresh = []"
    "[(0, bare_button), (100, section_button), (250, plain_button)] \<noteq> []"
    "burst (debounceTime fresh) [(0, bare_button), (100, section_button), (250, plain_button)]"
    "fst (last [(0, bare_button), (100, section_button), (250::nat, plain_button)]) + debounceTime fresh \<le> 600"
    by (simp_all add: fresh_def)
  have u: "requested_url shop plain_button
             (emit (TimerFired 550 7)
                ((gated fresh [(0, bare_button), (100, section_button), (250, plain_button)])\<lparr>timers := []\<rparr>))
           = Some \<lparr>location = ''https://shop.example/'', searchParams = [(''sections'', ''a'')], hash = []\<rparr>"
    by (simp add: requested_url_def gated_def handler_defs page_defs string_defs value_defs)
  have f: "fired fresh = []" "requests fresh = []" "debounceTime fresh = 300" "tid plain_button = 7"
    by (simp_all add: fired_def requests_def page_defs)
  show ?thesis
    using h u f
      C7_burst_is_one_activation [OF h, where env = shop and env' = shop, unfolded Let_def,
        THEN conjunct2]
    by simp
qed

section \<open>Event types\<close>

lemma lower_char_not_upper: "lower_char c \<notin> set ''ABCDEFGHIJKLMNOPQRSTUVWXYZ''"
  by (simp add: lower_char_def)

lemma toLowerCase_not_upper: "c \<in> set ''ABCDEFGHIJKLMNOPQRSTUVWXYZ'' \<Longrightarrow> c \<notin> set (toLowerCase x)"
  using lower_char_not_upper by (auto simp: toLowerCase_def)

lemma inherited_lower:
  "map_of Object_prototype (toLowerCase x) \<noteq> None \<Longrightarrow>
   toLowerCase x = ''constructor'' \<or> toLowerCase x = ''__proto__''"
proof -
  assume a: "map_of Object_prototype (toLowerCase x) \<noteq> None"
  have "CHR ''O'' \<notin> set (toLowerCase x)" "CHR ''P'' \<notin> set (toLowerCase x)"
    "CHR ''S'' \<notin> set (toLowerCase x)" "CHR ''G'' \<notin> set (toLowerCase x)"
    "CHR ''I'' \<notin> set (toLowerCase x)"
    by (simp_all add: toLowerCase_not_upper)
  then have "toLowerCase x \<noteq> ''hasOwnProperty''" "toLowerCase x \<noteq> ''isPrototypeOf''"
    "toLowerCase x \<noteq> ''propertyIsEnumerable''" "toLowerCase x \<noteq> ''toLocaleString''"
    "toLowerCase x \<noteq> ''toString''" "toLowerCase x \<noteq> ''valueOf''"
    "toLowerCase x \<noteq> ''__defineGetter__''" "toLowerCase x \<noteq> ''__defineSetter__''"
    "toLowerCase x \<noteq> ''__lookupGetter__''" "toLowerCase x \<noteq> ''__lookupSetter__''"
    by auto
  with a show ?thesis
    by (simp add: Object_prototype_def split: if_splits)
qed


lemma accepted_truthy: "map_of acceptedEvents k = Some v \<Longrightarrow> truthy v"
  by (auto simp: acceptedEvents_def split: if_splits)

lemma getEventType_truthy: "truthy (getEventType t)"
proof -
  have "object_get acceptedEvents ''*'' = JStr ''click''"
    by (simp add: object_get_def acceptedEvents_def)
  then show ?thesis
    by (simp add: getEventType_def Let_def)
qed

lemma forEach_trigger_binds:
  "fst (forEach_trigger ts s) = None \<and>
   trace (snd (forEach_trigger ts s))
     = trace s @ map (\<lambda>t. AddEventListener (tid t) (getEventType t)) ts"
  by (induction ts arbitrary: s) (simp_all add: Let_def getEventType_truthy emit_def)

lemma map_set_new: "k \<notin> fst ` set ps \<Longrightarrow> map_set ps k v = ps @ [(k, v)]"
  by (induction ps) auto

lemma forEach_trigger_bound:
  "distinct (map tid ts) \<Longrightarrow> fst ` set (boundEventListeners s) \<inter> tid ` set ts = {} \<Longrightarrow>
   boundEventListeners (snd (forEach_trigger ts s))
     = boundEventListeners s @ map (\<lambda>t. (tid t, getEventType t)) ts"
proof (induction ts arbitrary: s)
  case Nil
  show ?case by simp
next
  case (Cons t ts)
  let ?s1 = "emit (AddEventListener (tid t) (getEventType t))
       (s\<lparr>boundEventListeners := map_set (boundEventListeners s) (tid t) (getEventType t)\<rparr>)"
  have n: "tid t \<notin> fst ` set (boundEventListeners s)"
    using Cons.prems(2) by auto
  have b: "boundEventListeners ?s1 = boundEventListeners s @ [(tid t, getEventType t)]"
    using n by (simp add: emit_def map_set_new)
  have "fst ` set (boundEventListeners ?s1) \<inter> tid ` set ts = {}"
    using Cons.prems b by auto
  then have "boundEventListeners (snd (forEach_trigger ts ?s1))
     = boundEventListeners ?s1 @ map (\<lambda>t. (tid t, getEventType t)) ts"
    using Cons.IH [of ?s1] Cons.prems(1) by simp
  then show ?case
    using b by (simp add: Let_def getEventType_truthy)
qed

text \<open>
  What holds of the event types: the type is always truthy; a listed tag gets its entry;
  a tag that is neither listed nor one of the two lower-case names a plain object inherits
  gets \<open>click\<close>; binding never throws, calls \<open>addEventListener\<close> once per trigger, in
  order, and leaves one entry per trigger in the table of bound listeners.
\<close>

lemma event_types_and_bindings:
  "truthy (getEventType t) \<and>
   (map_of acceptedEvents (toLowerCase (tagName t)) = Some v \<longrightarrow> getEventType t = v) \<and>
   (map_of acceptedEvents (toLowerCase (tagName t)) = None \<longrightarrow>
    toLowerCase (tagName t) \<notin> {''constructor'', ''__proto__''} \<longrightarrow>
      getEventType t = JStr ''click'') \<and>
   fst (addEventListeners s) = None \<and>
   (triggers s = Some ts \<longrightarrow>
      trace (snd (addEventListeners s))
        = trace s @ map (\<lambda>t. AddEventListener (tid t) (getEventType t)) ts) \<and>
   (triggers s = Some ts \<longrightarrow> distinct (map tid ts) \<longrightarrow> boundEventListeners s = [] \<longrightarrow>
      boundEventListeners (snd (addEventListeners s))
        = map (\<lambda>t. (tid t, getEventType t)) ts)"
proof (intro conjI impI)
  show "truthy (getEventType t)"
    by (rule getEventType_truthy)
next
  assume a: "map_of acceptedEvents (toLowerCase (tagName t)) = Some v"
  then have "truthy v"
    by (rule accepted_truthy)
  with a show "getEventType t = v"
    by (simp add: getEventType_def object_get_def)
next
  assume a: "map_of acceptedEvents (toLowerCase (tagName t)) = None"
    and b: "toLowerCase (tagName t) \<notin> {''constructor'', ''__proto__''}"
  have "map_of Object_prototype (toLowerCase (tagName t)) = None"
    using inherited_lower [of "tagName t"] b
    by (cases "map_of Object_prototype (toLowerCase (tagName t))") simp_all
  with a show "getEventType t = JStr ''click''"
    by (simp add: getEventType_def object_get_def acceptedEvents_def)
next
  show "fst (addEventListeners s) = None"
    by (simp add: addEventListeners_def forEach_trigger_binds split: option.splits)
next
  assume "triggers s = Some ts"
  then show "trace (snd (addEventListeners s))
        = trace s @ map (\<lambda>t. AddEventListener (tid t) (getEventType t)) ts"
    by (simp add: addEventListeners_def forEach_trigger_binds)
next
  assume "triggers s = Some ts" "distinct (map tid ts)" "boundEventListeners s = []"
  then show "boundEventListeners (snd (addEventListeners s))
        = map (\<lambda>t. (tid t, getEventType t)) ts"
    using forEach_trigger_bound [of ts s] by (simp add: addEventListeners_def)
qed

text \<open>
  C10. Every tag should get its entry of the event table, or \<open>click\<close> when it has none,
  so that the throw in \<open>_addEventListeners\<close> is never reached. The throw is indeed never
  reached, for any trigger and any instance. But the table is a plain object: for the tag
  \<open>constructor\<close>, which it does not list, the lookup finds the inherited member
  \<open>Object\<close>, a function; it is truthy, the fallback is not taken, and the listener is
  bound with that function as its event type instead of \<open>click\<close>.
\<close>

theorem C10_inherited_member_as_event_type:
  "getEventType constructor_element = JFun ''Object'' \<and>
   trace (snd (addEventListeners (fresh\<lparr>triggers := Some [constructor_element]\<rparr>)))
     = [AddEventListener 3 (JFun ''Object'')] \<and>
   truthy (getEventType t) \<and>
   fst (addEventListeners s) = None"
proof -
  have "getEventType constructor_element = JFun ''Object''"
    by (simp add: getEventType_def acceptedEvents_def Let_def value_defs string_defs page_defs)
  moreover have "trace (snd (addEventListeners (fresh\<lparr>triggers := Some [constructor_element]\<rparr>)))
     = [AddEventListener 3 (JFun ''Object'')]"
    by (simp add: getEventType_def acceptedEvents_def addEventListeners_def emit_def Let_def
        value_defs string_defs page_defs)
  moreover have "fst (addEventListeners s) = None"
    by (simp add: addEventListeners_def forEach_trigger_binds split: option.splits)
  ultimately show ?thesis
    by (simp add: getEventType_truthy)
qed

end
